theory Spec2Isabelle
  imports Main "HOL-Library.Word" "HOL-Library.Multiset"
begin

section \<open>Machine integers of the Go sources\<close>

text \<open>
  Go's \<open>int\<close> is a 64-bit two's complement integer on the supported platforms. It is
  modelled as a HOL \<open>int\<close>; where the code adds or subtracts values that can leave the
  64-bit range, the wrap-around is written out with \<open>wrap64\<close>. \<open>uint32\<close> and
  \<open>uint64\<close> are \<open>32 word\<close> and \<open>64 word\<close>.
\<close>

type_synonym uint32 = "32 word"
type_synonym uint64 = "64 word"

definition wrap64 :: "int \<Rightarrow> int" where
  "wrap64 x = (x + 2 ^ 63) mod 2 ^ 64 - 2 ^ 63"

definition in_int64 :: "int \<Rightarrow> bool" where
  "in_int64 x \<longleftrightarrow> - (2 ^ 63) \<le> x \<and> x < 2 ^ 63"

text \<open>Go's integer division truncates towards zero.\<close>

definition go_div :: "int \<Rightarrow> int \<Rightarrow> int" where
  "go_div a b = sgn a * sgn b * (\<bar>a\<bar> div \<bar>b\<bar>)"

section \<open>The host (package util)\<close>

text \<open>
  \<open>util.AvailableMemoryBytes\<close>, \<open>util.PhysicalCores\<close> and \<open>util.LogicalCores\<close>
  read the machine the program runs on. Their readings are the fields of a record that
  every function consulting them takes as an argument.
\<close>

record host =
  AvailableMemoryBytes :: uint64
  PhysicalCores :: int
  LogicalCores :: int

section \<open>Threads per worker (package encode)\<close>

text \<open>
  \<open>calculateThreadsPerWorker\<close>. The increment is only taken below \<open>maxThreads\<close>,
  which is at most 16, so it cannot overflow.
\<close>

definition maxThreads_of :: "uint32 \<Rightarrow> int" where
  "maxThreads_of width =
     (if width \<ge> 3840 then 16 else if width \<ge> 1920 then 10 else 6)"

definition calculateThreadsPerWorker :: "host \<Rightarrow> int \<Rightarrow> uint32 \<Rightarrow> int" where
  "calculateThreadsPerWorker h workers width =
     (if workers \<le> 0 then 1
      else
        let physical = PhysicalCores h;
            logical = LogicalCores h;
            hasSMT = (logical > physical);
            maxThreads = maxThreads_of width;
            threadsPerWorker = go_div physical workers;
            threadsPerWorker =
              (if hasSMT \<and> threadsPerWorker < maxThreads then threadsPerWorker + 1
               else threadsPerWorker)
        in max 1 (min threadsPerWorker maxThreads))"

text \<open>The clamp of the specification's formulas: \<open>clamp x lo hi\<close>.\<close>

definition clamp :: "int \<Rightarrow> int \<Rightarrow> int \<Rightarrow> int" where
  "clamp x lo hi = max lo (min x hi)"

section \<open>Text and numbers (packages strings, strconv and fmt)\<close>

definition is_digit :: "char \<Rightarrow> bool" where
  "is_digit c \<longleftrightarrow> 48 \<le> (of_char c :: nat) \<and> (of_char c :: nat) \<le> 57"

definition digit_val :: "char \<Rightarrow> nat" where
  "digit_val c = of_char c - 48"

definition digit_char :: "nat \<Rightarrow> char" where
  "digit_char d = ''0123456789'' ! d"

datatype num_error = ErrSyntax | ErrRange

fun parse_digits :: "nat \<Rightarrow> nat \<Rightarrow> string \<Rightarrow> num_error + nat" where
  "parse_digits maxVal n [] = Inr n"
| "parse_digits maxVal n (c # cs) =
     (if \<not> is_digit c then Inl ErrSyntax
      else if n \<ge> 2 ^ 64 div 10 + 1 then Inl ErrRange
      else
        let n1 = n * 10 + digit_val c
        in if n1 \<ge> 2 ^ 64 \<or> n1 > maxVal then Inl ErrRange
           else parse_digits maxVal n1 cs)"

definition ParseUint :: "string \<Rightarrow> nat \<Rightarrow> num_error + nat" where
  "ParseUint s bitSize =
     (if s = [] then Inl ErrSyntax else parse_digits (2 ^ bitSize - 1) 0 s)"

definition Atoi :: "string \<Rightarrow> num_error + int" where
  "Atoi s =
     (if s = [] then Inl ErrSyntax
      else
        let neg = (hd s = CHR ''-'');
            body = (if hd s = CHR ''+'' \<or> hd s = CHR ''-'' then tl s else s)
        in case ParseUint body 64 of
             Inl e \<Rightarrow> Inl e
           | Inr un \<Rightarrow>
               if \<not> neg \<and> un \<ge> 2 ^ 63 then Inl ErrRange
               else if neg \<and> un > 2 ^ 63 then Inl ErrRange
               else Inr (if neg then - int un else int un))"

function fmt_nat :: "nat \<Rightarrow> string" where
  "fmt_nat n = (if n < 10 then [digit_char n] else fmt_nat (n div 10) @ [digit_char (n mod 10)])"
  by pat_completeness auto
termination
  by (relation "measure id") auto

declare fmt_nat.simps [simp del]

definition fmt_int :: "int \<Rightarrow> string" where
  "fmt_int i = (if i < 0 then CHR ''-'' # fmt_nat (nat (- i)) else fmt_nat (nat i))"

definition dec_val :: "nat \<Rightarrow> string \<Rightarrow> nat" where
  "dec_val acc s = foldl (\<lambda>a c. a * 10 + digit_val c) acc s"

text \<open>\<open>strings.Split s sep\<close> for a one-byte separator: never empty, one more
  element than there are separators.\<close>

fun Split :: "string \<Rightarrow> char \<Rightarrow> string list" where
  "Split [] sep = [[]]"
| "Split (c # cs) sep =
     (if c = sep then [] # Split cs sep
      else case Split cs sep of
             [] \<Rightarrow> [[c]]
           | p # ps \<Rightarrow> (c # p) # ps)"

definition HasPrefix :: "string \<Rightarrow> string \<Rightarrow> bool" where
  "HasPrefix s pre \<longleftrightarrow> take (length pre) s = pre"

definition TrimPrefix :: "string \<Rightarrow> string \<Rightarrow> string" where
  "TrimPrefix s pre = (if HasPrefix s pre then drop (length pre) s else s)"

text \<open>
  White space in the sense of \<open>unicode.IsSpace\<close>, on the UTF-8 bytes of a string:
  the ASCII characters tab, line feed, vertical tab, form feed, carriage return and
  space, and the encodings of U+0085, U+00A0, U+1680, U+2000 to U+200A, U+2028,
  U+2029, U+202F, U+205F and U+3000. Each encoding starts with a byte that is not a
  continuation byte, so the decoder of the Go runtime reaches it at a rune boundary.
  \<open>space_width s\<close> is the number of bytes of the white space rune at the head of
  \<open>s\<close>, or 0 when there is none.
\<close>

definition byte_at :: "string \<Rightarrow> nat \<Rightarrow> nat" where
  "byte_at s i = (if i < length s then of_char (s ! i) else 256)"

definition space_bytes :: "nat \<Rightarrow> nat \<Rightarrow> nat \<Rightarrow> nat" where
  "space_bytes b0 b1 b2 =
     (if (9 \<le> b0 \<and> b0 \<le> 13) \<or> b0 = 32 then 1
      else if b0 = 194 \<and> (b1 = 133 \<or> b1 = 160) then 2
      else if b0 = 225 \<and> b1 = 154 \<and> b2 = 128 then 3
      else if b0 = 226 \<and> b1 = 128 \<and>
              ((128 \<le> b2 \<and> b2 \<le> 138) \<or> b2 = 168 \<or> b2 = 169 \<or> b2 = 175) then 3
      else if b0 = 226 \<and> b1 = 129 \<and> b2 = 159 then 3
      else if b0 = 227 \<and> b1 = 128 \<and> b2 = 128 then 3
      else 0)"

definition space_width :: "string \<Rightarrow> nat" where
  "space_width s = space_bytes (byte_at s 0) (byte_at s 1) (byte_at s 2)"

text \<open>The same for the rune at the end of a string, given the string reversed.\<close>

definition space_width_rev :: "string \<Rightarrow> nat" where
  "space_width_rev r =
     (if space_bytes (byte_at r 0) 256 256 = 1 then 1
      else if space_bytes (byte_at r 1) (byte_at r 0) 256 = 2 then 2
      else if space_bytes (byte_at r 2) (byte_at r 1) (byte_at r 0) = 3 then 3
      else 0)"

fun trim_left :: "string \<Rightarrow> string" where
  "trim_left [] = []"
| "trim_left (c # cs) =
     (if space_width (c # cs) = 0 then c # cs
      else trim_left (drop (space_width (c # cs) - 1) cs))"

fun trim_right_rev :: "string \<Rightarrow> string" where
  "trim_right_rev [] = []"
| "trim_right_rev (c # cs) =
     (if space_width_rev (c # cs) = 0 then c # cs
      else trim_right_rev (drop (space_width_rev (c # cs) - 1) cs))"

definition TrimSpace :: "string \<Rightarrow> string" where
  "TrimSpace s = rev (trim_right_rev (rev (trim_left s)))"

text \<open>\<open>strings.Fields\<close>: the maximal runs of bytes between white space.\<close>

fun fields_from :: "string \<Rightarrow> string \<Rightarrow> string list" where
  "fields_from cur [] = (if cur = [] then [] else [cur])"
| "fields_from cur (c # cs) =
     (if space_width (c # cs) = 0 then fields_from (cur @ [c]) cs
      else (if cur = [] then [] else [cur])
           @ fields_from [] (drop (space_width (c # cs) - 1) cs))"

definition Fields :: "string \<Rightarrow> string list" where
  "Fields s = fields_from [] s"

text \<open>
  \<open>bufio.Scanner\<close> with the default split function \<open>ScanLines\<close> and the default
  buffer: the lines of the input without their line feed and without one trailing
  carriage return; text after the last line feed is a line when it is not empty. A
  line of 65536 bytes or more does not fit the buffer: scanning stops before it and
  \<open>Err\<close> returns \<open>ErrTooLong\<close>. \<open>ScanLines\<close> gives the lines that \<open>Scan\<close>
  delivers and the final value of \<open>Err\<close>.
\<close>

fun raw_lines :: "string \<Rightarrow> string \<Rightarrow> string list" where
  "raw_lines cur [] = (if cur = [] then [] else [cur])"
| "raw_lines cur (c # cs) =
     (if c = CHR 0x0A then cur # raw_lines [] cs else raw_lines (cur @ [c]) cs)"

definition dropCR :: "string \<Rightarrow> string" where
  "dropCR l = (if l \<noteq> [] \<and> last l = CHR 0x0D then butlast l else l)"

datatype scan_error = ErrTooLong

definition ScanLines :: "string \<Rightarrow> string list \<times> scan_error option" where
  "ScanLines content =
     (let ls = raw_lines [] content
      in (map dropCR (takeWhile (\<lambda>l. length l < 65536) ls),
          if list_all (\<lambda>l. length l < 65536) ls then None else Some ErrTooLong))"

text \<open>The bytes of a printed integer: a digit or the minus sign.\<close>

definition number_char :: "char \<Rightarrow> bool" where
  "number_char c \<longleftrightarrow> is_digit c \<or> c = CHR ''-''"

section \<open>Crop filters (package processing)\<close>

definition isValidCropFormat :: "string \<Rightarrow> bool" where
  "isValidCropFormat crop =
     (let parts = Split crop (CHR '':'')
      in if length parts \<noteq> 4 then False
         else list_all (\<lambda>part. case ParseUint part 32 of Inl _ \<Rightarrow> False | Inr _ \<Rightarrow> True) parts)"

definition isEffectiveCrop :: "string \<Rightarrow> uint32 \<Rightarrow> uint32 \<Rightarrow> bool" where
  "isEffectiveCrop crop sourceWidth sourceHeight =
     (case Split crop (CHR '':'') of
        p0 # p1 # _ \<Rightarrow>
          (case ParseUint p0 32 of
             Inl _ \<Rightarrow> True
           | Inr cropWidth \<Rightarrow>
               (case ParseUint p1 32 of
                  Inl _ \<Rightarrow> True
                | Inr cropHeight \<Rightarrow>
                    (word_of_nat cropWidth :: uint32) \<noteq> sourceWidth
                    \<or> (word_of_nat cropHeight :: uint32) \<noteq> sourceHeight))
      | _ \<Rightarrow> True)"

definition GetOutputDimensions :: "uint32 \<Rightarrow> uint32 \<Rightarrow> string \<Rightarrow> uint32 \<times> uint32" where
  "GetOutputDimensions originalWidth originalHeight cropFilter =
     (if cropFilter = [] then (originalWidth, originalHeight)
      else
        let params = TrimPrefix cropFilter ''crop='';
            parts = Split params (CHR '':'')
        in case parts of
             p0 # p1 # _ \<Rightarrow>
               (case ParseUint p0 32 of
                  Inr width \<Rightarrow>
                    (case ParseUint p1 32 of
                       Inr height \<Rightarrow> (word_of_nat width, word_of_nat height)
                     | Inl _ \<Rightarrow> (originalWidth, originalHeight))
                | Inl _ \<Rightarrow> (originalWidth, originalHeight))
           | _ \<Rightarrow> (originalWidth, originalHeight))"

text \<open>A decimal literal of an unsigned integer of the given size: what \<open>ParseUint\<close>
  accepts.\<close>

definition uint_literal :: "nat \<Rightarrow> string \<Rightarrow> bool" where
  "uint_literal bitSize s \<longleftrightarrow> s \<noteq> [] \<and> list_all is_digit s \<and> dec_val 0 s < 2 ^ bitSize"

section \<open>Chunks and the resume log (package chunk)\<close>

record Scene =
  StartFrame :: int
  EndFrame :: int

record Chunk =
  Idx :: int
  Start :: int
  End :: int

text \<open>\<open>Chunk.Frames\<close>: a subtraction of two Go \<open>int\<close>s.\<close>

definition Chunk_Frames :: "Chunk \<Rightarrow> int" where
  "Chunk_Frames c = wrap64 (End c - Start c)"

record ChunkComp =
  comp_Idx :: int
  comp_Frames :: int
  comp_Size :: uint64

record ResumeInf =
  ChunksDone :: "ChunkComp list"

text \<open>
  A file of the work directory: absent, present but not to be opened, or present with
  its bytes.
\<close>

datatype file_state = Absent | Unreadable | Content string

datatype chunk_error =
    OpenFailed
  | ReadFailed scan_error
  | InvalidFrameNumber string num_error

text \<open>
  \<open>LoadScenes\<close>. The first loop reads the scenes file line by line and returns at the
  first line that is no number; the numbers are sorted, 0 is put in front unless it is
  there already, and each number opens a scene that ends at the next number, or at
  \<open>totalFrames\<close> for the last one. Empty scenes are left out.
\<close>

fun parse_frame_lines :: "string list \<Rightarrow> chunk_error + int list" where
  "parse_frame_lines [] = Inr []"
| "parse_frame_lines (l # ls) =
     (let line = TrimSpace l
      in if line = [] then parse_frame_lines ls
         else case Atoi line of
                Inl e \<Rightarrow> Inl (InvalidFrameNumber line e)
              | Inr frameNum \<Rightarrow>
                  (case parse_frame_lines ls of
                     Inl e \<Rightarrow> Inl e
                   | Inr frameNums \<Rightarrow> Inr (frameNum # frameNums)))"

fun scenes_from :: "int list \<Rightarrow> int \<Rightarrow> Scene list" where
  "scenes_from [] totalFrames = []"
| "scenes_from [start] totalFrames =
     (if start < totalFrames then [\<lparr>StartFrame = start, EndFrame = totalFrames\<rparr>] else [])"
| "scenes_from (start # next # rest) totalFrames =
     (if start < next then [\<lparr>StartFrame = start, EndFrame = next\<rparr>] else [])
     @ scenes_from (next # rest) totalFrames"

definition LoadScenes :: "file_state \<Rightarrow> int \<Rightarrow> chunk_error + Scene list" where
  "LoadScenes f totalFrames =
     (case f of
        Absent \<Rightarrow> Inl OpenFailed
      | Unreadable \<Rightarrow> Inl OpenFailed
      | Content content \<Rightarrow>
          (case parse_frame_lines (fst (ScanLines content)) of
             Inl e \<Rightarrow> Inl e
           | Inr nums \<Rightarrow>
               (case snd (ScanLines content) of
                  Some e \<Rightarrow> Inl (ReadFailed e)
                | None \<Rightarrow>
                    let frameNums = sort nums;
                        frameNums = (if frameNums = [] \<or> hd frameNums \<noteq> 0
                                     then 0 # frameNums else frameNums)
                    in Inr (scenes_from frameNums totalFrames))))"

text \<open>\<open>Chunkify\<close>: the scene at position \<open>i\<close> becomes the chunk with index \<open>i\<close>.\<close>

fun chunkify_from :: "int \<Rightarrow> Scene list \<Rightarrow> Chunk list" where
  "chunkify_from i [] = []"
| "chunkify_from i (scene # scenes) =
     \<lparr>Idx = i, Start = StartFrame scene, End = EndFrame scene\<rparr> # chunkify_from (i + 1) scenes"

definition Chunkify :: "Scene list \<Rightarrow> Chunk list" where
  "Chunkify scenes = chunkify_from 0 scenes"

text \<open>
  \<open>GetResume\<close> reads \<open>done.txt\<close>. A line that is empty after trimming, that has not
  exactly three fields, or whose fields are not two \<open>int\<close>s and a \<open>uint64\<close>, is
  skipped.
\<close>

definition parse_done_line :: "string \<Rightarrow> ChunkComp option" where
  "parse_done_line l =
     (let line = TrimSpace l
      in if line = [] then None
         else
           let parts = Fields line
           in if length parts \<noteq> 3 then None
              else case Atoi (parts ! 0) of
                     Inl _ \<Rightarrow> None
                   | Inr idx \<Rightarrow>
                       (case Atoi (parts ! 1) of
                          Inl _ \<Rightarrow> None
                        | Inr frames \<Rightarrow>
                            (case ParseUint (parts ! 2) 64 of
                               Inl _ \<Rightarrow> None
                             | Inr sz \<Rightarrow>
                                 Some \<lparr>comp_Idx = idx, comp_Frames = frames,
                                       comp_Size = word_of_nat sz\<rparr>)))"

definition GetResume :: "file_state \<Rightarrow> chunk_error + ResumeInf" where
  "GetResume doneFile =
     (case doneFile of
        Absent \<Rightarrow> Inr \<lparr>ChunksDone = []\<rparr>
      | Unreadable \<Rightarrow> Inl OpenFailed
      | Content content \<Rightarrow>
          (case snd (ScanLines content) of
             Some e \<Rightarrow> Inl (ReadFailed e)
           | None \<Rightarrow> Inr \<lparr>ChunksDone = List.map_filter parse_done_line (fst (ScanLines content))\<rparr>))"

text \<open>
  \<open>AppendDone\<close> writes one line, \<open>"%d %d %d\n"\<close>, at the end of \<open>done.txt\<close> and
  creates the file when it is absent. The result is the error, if any, and the file
  afterwards.
\<close>

definition done_body :: "ChunkComp \<Rightarrow> string" where
  "done_body c =
     fmt_int (comp_Idx c) @ '' '' @ fmt_int (comp_Frames c) @ '' ''
     @ fmt_nat (unat (comp_Size c))"

definition done_line :: "ChunkComp \<Rightarrow> string" where
  "done_line c = done_body c @ [CHR 0x0A]"

definition AppendDone :: "ChunkComp \<Rightarrow> file_state \<Rightarrow> chunk_error option \<times> file_state" where
  "AppendDone c doneFile =
     (case doneFile of
        Absent \<Rightarrow> (None, Content (done_line c))
      | Unreadable \<Rightarrow> (Some OpenFailed, Unreadable)
      | Content content \<Rightarrow> (None, Content (content @ done_line c)))"

text \<open>
  \<open>DoneSet\<close> builds a Go \<open>map[int]bool\<close>; reading a key that is not in the map gives
  \<open>false\<close>.
\<close>

definition DoneSet :: "ResumeInf \<Rightarrow> (int \<rightharpoonup> bool)" where
  "DoneSet r = fold (\<lambda>c done. done(comp_Idx c \<mapsto> True)) (ChunksDone r) Map.empty"

definition map_index :: "(int \<rightharpoonup> bool) \<Rightarrow> int \<Rightarrow> bool" where
  "map_index m k = (case m k of None \<Rightarrow> False | Some b \<Rightarrow> b)"

definition TotalEncodedSize :: "ResumeInf \<Rightarrow> uint64" where
  "TotalEncodedSize r = fold (\<lambda>c acc. acc + comp_Size c) (ChunksDone r) 0"

definition TotalEncodedFrames :: "ResumeInf \<Rightarrow> int" where
  "TotalEncodedFrames r = fold (\<lambda>c acc. wrap64 (acc + comp_Frames c)) (ChunksDone r) 0"

text \<open>
  A resume log to which a line can be appended without joining it to an unfinished
  last line: the file is absent or empty, or its last byte is a line feed.
\<close>

definition well_terminated :: "file_state \<Rightarrow> bool" where
  "well_terminated doneFile =
     (case doneFile of
        Absent \<Rightarrow> True
      | Unreadable \<Rightarrow> False
      | Content content \<Rightarrow> content = [] \<or> last content = CHR 0x0A)"

text \<open>
  An exact partition of the frames \<open>0 \<le> f < tf\<close>: at least one chunk, the first
  starts at 0, each ends where the next starts, the last ends at \<open>tf\<close>, the
  indices count from 0, and no chunk is empty. \<open>covers i s chunks tf\<close> is the same
  read along the list, from index \<open>i\<close> and frame \<open>s\<close>; \<open>chain\<close> is its
  counterpart for scenes.
\<close>

definition exact_partition :: "Chunk list \<Rightarrow> int \<Rightarrow> bool" where
  "exact_partition chunks tf \<longleftrightarrow>
     chunks \<noteq> []
     \<and> Start (hd chunks) = 0
     \<and> End (last chunks) = tf
     \<and> (\<forall>k. Suc k < length chunks \<longrightarrow> End (chunks ! k) = Start (chunks ! Suc k))
     \<and> (\<forall>k < length chunks. Idx (chunks ! k) = int k)
     \<and> (\<forall>c \<in> set chunks. 1 \<le> End c - Start c \<and> Chunk_Frames c = End c - Start c)"

fun covers :: "int \<Rightarrow> int \<Rightarrow> Chunk list \<Rightarrow> int \<Rightarrow> bool" where
  "covers i s [] tf \<longleftrightarrow> s = tf"
| "covers i s (c # cs) tf \<longleftrightarrow>
     Idx c = i \<and> Start c = s \<and> s < End c \<and> covers (i + 1) (End c) cs tf"

fun chain :: "int \<Rightarrow> Scene list \<Rightarrow> int \<Rightarrow> bool" where
  "chain s [] tf \<longleftrightarrow> s = tf"
| "chain s (sc # scs) tf \<longleftrightarrow>
     StartFrame sc = s \<and> s < EndFrame sc \<and> chain (EndFrame sc) scs tf"

section \<open>Floating point, as far as the sources use it\<close>

text \<open>
  The sources compute with \<open>float64\<close> in two places, both on values that are not
  negative: \<open>uint64(float64(available) * MemoryFraction)\<close> in \<open>CapWorkers\<close> and
  \<open>float64(count) / float64(total) > 0.8\<close> in \<open>DetectCrop\<close>. An IEEE 754 double has
  53 significant bits and every operation rounds its exact result to the nearest
  double, ties to the even one. On these values the operations are the following
  functions on natural numbers. \<open>bit_length\<close> is \<open>bits.Len\<close>; \<open>round53 n\<close> is \<open>n\<close>
  rounded to 53 significant bits.
\<close>

function bit_length :: "nat \<Rightarrow> nat" where
  "bit_length n = (if n = 0 then 0 else Suc (bit_length (n div 2)))"
  by pat_completeness auto
termination
  by (relation "measure id") auto

declare bit_length.simps [simp del]

definition round53 :: "nat \<Rightarrow> nat" where
  "round53 n =
     (let b = bit_length n
      in if b \<le> 53 then n
         else
           let s = b - 53;
               q = n div 2 ^ s;
               r = n mod 2 ^ s;
               h = 2 ^ (s - 1)
           in (if r > h \<or> (r = h \<and> odd q) then q + 1 else q) * 2 ^ s)"

text \<open>
  \<open>MemoryFraction = 0.7\<close>: the double nearest to 7/10 is \<open>6305039478318694 / 2 ^ 53\<close>.
  \<open>usable_memory available\<close> is \<open>uint64(float64(available) * MemoryFraction)\<close>: the
  conversion of \<open>available\<close> to a double, the rounded product, and its integer part.
\<close>

definition MemoryFraction_mantissa :: nat where
  "MemoryFraction_mantissa = 6305039478318694"

definition usable_memory :: "uint64 \<Rightarrow> nat" where
  "usable_memory available =
     round53 (round53 (unat available) * MemoryFraction_mantissa) div 2 ^ 53"

text \<open>
  \<open>float64(count) / float64(total) > 0.8\<close> for \<open>0 < count\<close>, \<open>0 < total\<close>, both below
  \<open>2 ^ 53\<close> and so doubles themselves. The quotient is \<open>m / 2 ^ e\<close> where \<open>e\<close> makes
  the integer part of \<open>count * 2 ^ e / total\<close> a number of 53 bits and \<open>m\<close> is that
  integer part, rounded up when the remainder demands it. The double nearest to 4/5
  is \<open>7205759403792794 / 2 ^ 53\<close>.
\<close>

definition quotient_exponent :: "nat \<Rightarrow> nat \<Rightarrow> nat" where
  "quotient_exponent c t =
     (let e = 52 + bit_length t - bit_length c
      in if (c * 2 ^ e) div t < 2 ^ 52 then e + 1 else e)"

definition quotient_mantissa :: "nat \<Rightarrow> nat \<Rightarrow> nat" where
  "quotient_mantissa c t =
     (let x = c * 2 ^ quotient_exponent c t;
          q = x div t;
          r = x mod t
      in if 2 * r > t \<or> (2 * r = t \<and> odd q) then q + 1 else q)"

definition ratio_exceeds_0_8 :: "nat \<Rightarrow> nat \<Rightarrow> bool" where
  "ratio_exceeds_0_8 c t \<longleftrightarrow>
     quotient_mantissa c t * 2 ^ 53 > 7205759403792794 * 2 ^ quotient_exponent c t"

section \<open>Workers and memory (package encode)\<close>

definition MemPerWorker4K :: nat where
  "MemPerWorker4K = 5 * 2 ^ 30"

definition MemPerWorker1080p :: nat where
  "MemPerWorker1080p = 2 * 2 ^ 30"

definition MemPerWorkerSD :: nat where
  "MemPerWorkerSD = 512 * 2 ^ 20"

definition memoryPerWorker :: "uint32 \<Rightarrow> uint32 \<Rightarrow> nat" where
  "memoryPerWorker width height =
     (if width \<ge> 3840 \<or> height \<ge> 2160 then MemPerWorker4K
      else if width \<ge> 1920 \<or> height \<ge> 1080 then MemPerWorker1080p
      else MemPerWorkerSD)"

text \<open>
  \<open>CapWorkers\<close>. The reading of the available memory is 0 when it cannot be
  determined; then the request stands.
\<close>

definition CapWorkers :: "host \<Rightarrow> int \<Rightarrow> uint32 \<Rightarrow> uint32 \<Rightarrow> int \<times> bool" where
  "CapWorkers h requested width height =
     (let memPerWorker = memoryPerWorker width height;
          available = AvailableMemoryBytes h;
          maxByMemory =
            (if available > 0
             then max (int (usable_memory available div memPerWorker)) 1
             else requested)
      in if requested > maxByMemory then (maxByMemory, True) else (requested, False))"

definition CalculatePermits :: "int \<Rightarrow> int \<Rightarrow> int" where
  "CalculatePermits workers buffer = max (wrap64 (workers + buffer)) 1"

text \<open>
  The worker count as the specification writes it, in exact arithmetic:
  \<open>clamp (floor (available * 0.70 / class)) 1 W_req\<close>.
\<close>

definition specified_workers :: "nat \<Rightarrow> nat \<Rightarrow> int \<Rightarrow> int" where
  "specified_workers available class W_req =
     clamp (int ((available * 7) div (10 * class))) 1 W_req"

section \<open>The parallel encode pipeline (package encode)\<close>

text \<open>
  Of \<open>ffms.VidInf\<close> and \<open>EncodeConfig\<close> the fields that \<open>EncodeAll\<close> itself reads;
  the others are handed to the encoder process. \<open>worker.Progress\<close> and
  \<open>worker.EncodeResult\<close> have the fields that \<open>EncodeAll\<close> and
  \<open>encodeChunkStreaming\<close> set.
\<close>

record VidInf =
  Width :: uint32
  Height :: uint32

record EncodeConfig =
  Workers :: int
  ChunkBuffer :: int
  LogicalProcessors :: int

record Progress =
  ChunksTotal :: int
  ChunksComplete :: int
  FramesTotal :: int
  FramesComplete :: int
  BytesComplete :: uint64

record EncodeResult =
  ChunkIdx :: int
  Frames :: int
  Size :: uint64
  Error :: "string option"

text \<open>
  The work directory: \<open>done.txt\<close> and, for each chunk index, the size of the encoded
  file \<open>encode/NNNN.ivf\<close> when that file exists.
\<close>

record workdir =
  done_txt :: file_state
  ivf_files :: "int \<rightharpoonup> uint64"

text \<open>
  What \<open>EncodeAll\<close> meets outside itself: the host, the outcome of creating the encode
  directory, and the outcome of \<open>ffms.GetDecodeStrat\<close>, which is an error or the new
  width and height of the crop calculation, if there is one.
\<close>

record surroundings =
  the_host :: host
  EnsureEncodeDir_error :: "string option"
  GetDecodeStrat_result :: "string + (uint32 \<times> uint32) option"

text \<open>
  The goroutines of \<open>EncodeAll\<close> meet in two places: the result channel, which the one
  collector goroutine reads in order, and the error slot, which is only written by an
  atomic compare-and-swap. A run is therefore described by the sequence of these
  events, in the order the collector and the slot see them: a worker could not open
  its video source and latches that error itself; \<open>encodeChunkStreaming\<close> returned a
  result for a chunk, with the size of the file it wrote; or it returned an error for
  a chunk (a worker that finds the context cancelled sends such a result too).
\<close>

datatype event =
    SourceFailed string
  | Encoded Chunk uint64
  | Failed Chunk string

datatype encode_error =
    CreateEncodeDirFailed string
  | LoadResumeFailed chunk_error
  | DecodeStrategyFailed string
  | Latched string

record pipeline =
  progress :: Progress
  encodeErr :: "string option"
  workDir :: workdir
  trace :: "Progress list"

text \<open>\<open>setError\<close> is \<open>encodeErr.CompareAndSwap(nil, &err)\<close>; \<open>getError\<close> reads the slot.\<close>

definition setError :: "string \<Rightarrow> pipeline \<Rightarrow> pipeline" where
  "setError e st =
     (case encodeErr st of
        None \<Rightarrow> st\<lparr>encodeErr := Some e\<rparr>
      | Some _ \<Rightarrow> st)"

definition getError :: "pipeline \<Rightarrow> string option" where
  "getError st = encodeErr st"

text \<open>
  The body of the collector's loop for one result: \<open>advance\<close> is the update of
  \<open>progress\<close> under the lock. \<open>trace\<close> keeps the value of \<open>progress\<close> after every
  update, which is what the progress callback is given.
\<close>

definition advance :: "Progress \<Rightarrow> EncodeResult \<Rightarrow> Progress" where
  "advance p result =
     p\<lparr>ChunksComplete := wrap64 (ChunksComplete p + 1),
       FramesComplete := wrap64 (FramesComplete p + Frames result),
       BytesComplete := BytesComplete p + Size result\<rparr>"

definition collect :: "EncodeResult \<Rightarrow> pipeline \<Rightarrow> pipeline" where
  "collect result st =
     (case Error result of
        Some e \<Rightarrow> setError e st
      | None \<Rightarrow>
          let p = advance (progress st) result;
              wd = workDir st;
              wd = wd\<lparr>done_txt :=
                     snd (AppendDone \<lparr>comp_Idx = ChunkIdx result, comp_Frames = Frames result,
                                       comp_Size = Size result\<rparr> (done_txt wd))\<rparr>
          in st\<lparr>progress := p, workDir := wd, trace := trace st @ [p]\<rparr>)"

fun step :: "event \<Rightarrow> pipeline \<Rightarrow> pipeline" where
  "step (SourceFailed e) st = setError e st"
| "step (Encoded ch sz) st =
     collect \<lparr>ChunkIdx = Idx ch, Frames = Chunk_Frames ch, Size = sz, Error = None\<rparr>
       (st\<lparr>workDir := (workDir st)\<lparr>ivf_files := (ivf_files (workDir st))(Idx ch \<mapsto> sz)\<rparr>\<rparr>)"
| "step (Failed ch e) st =
     collect \<lparr>ChunkIdx = Idx ch, Frames = 0, Size = 0, Error = Some e\<rparr> st"

text \<open>The first loop of \<open>EncodeAll\<close>: the chunks still to encode and the frame total.\<close>

definition remainingChunks :: "(int \<rightharpoonup> bool) \<Rightarrow> Chunk list \<Rightarrow> Chunk list" where
  "remainingChunks doneSet chunks = filter (\<lambda>ch. \<not> map_index doneSet (Idx ch)) chunks"

definition totalFrames_of :: "Chunk list \<Rightarrow> int" where
  "totalFrames_of chunks = fold (\<lambda>ch totalFrames. wrap64 (totalFrames + Chunk_Frames ch)) chunks 0"

text \<open>
  The result of a call of \<open>EncodeAll\<close>: the two values it returns, the values of
  \<open>progress\<close> in order (the initial one, then one for each update of the collector;
  none when the pipeline did not start), and the work directory afterwards.
\<close>

record encode_run =
  run_workers :: int
  run_error :: "encode_error option"
  run_trace :: "Progress list"
  run_workDir :: workdir

text \<open>
  \<open>EncodeAll\<close>. No worker is started when the worker count is not positive; then
  nothing is encoded and nothing fails.
\<close>

definition EncodeAll ::
  "surroundings \<Rightarrow> workdir \<Rightarrow> Chunk list \<Rightarrow> VidInf \<Rightarrow> EncodeConfig \<Rightarrow> event list \<Rightarrow> encode_run"
where
  "EncodeAll env wd chunks vidInf cfg events =
     (case EnsureEncodeDir_error env of
        Some e \<Rightarrow>
          \<lparr>run_workers = 0, run_error = Some (CreateEncodeDirFailed e), run_trace = [],
           run_workDir = wd\<rparr>
      | None \<Rightarrow>
     (case GetResume (done_txt wd) of
        Inl e \<Rightarrow>
          \<lparr>run_workers = 0, run_error = Some (LoadResumeFailed e), run_trace = [],
           run_workDir = wd\<rparr>
      | Inr resume \<Rightarrow>
          let doneSet = DoneSet resume;
              remaining = remainingChunks doneSet chunks;
              totalFrames = totalFrames_of chunks
          in if remaining = []
             then \<lparr>run_workers = Workers cfg, run_error = None, run_trace = [], run_workDir = wd\<rparr>
             else
     (case GetDecodeStrat_result env of
        Inl e \<Rightarrow>
          \<lparr>run_workers = 0, run_error = Some (DecodeStrategyFailed e), run_trace = [],
           run_workDir = wd\<rparr>
      | Inr cropCalc \<Rightarrow>
          let (width, height) =
                (case cropCalc of None \<Rightarrow> (Width vidInf, Height vidInf) | Some new \<Rightarrow> new);
              actualWorkers = fst (CapWorkers (the_host env) (Workers cfg) width height);
              progress0 =
                \<lparr>ChunksTotal = int (length chunks),
                 ChunksComplete = int (length chunks) - int (length remaining),
                 FramesTotal = totalFrames,
                 FramesComplete = TotalEncodedFrames resume,
                 BytesComplete = TotalEncodedSize resume\<rparr>;
              st = fold step (if actualWorkers \<le> 0 then [] else events)
                     \<lparr>progress = progress0, encodeErr = None, workDir = wd, trace = [progress0]\<rparr>
          in \<lparr>run_workers = actualWorkers, run_error = map_option Latched (getError st),
              run_trace = trace st, run_workDir = workDir st\<rparr>)))"



text \<open>The errors that a run's events pass to \<open>setError\<close>, in order.\<close>

fun failures :: "event list \<Rightarrow> string list" where
  "failures [] = []"
| "failures (SourceFailed e # es) = e # failures es"
| "failures (Encoded ch sz # es) = failures es"
| "failures (Failed ch e # es) = e # failures es"



text \<open>
  A plan of chunks as the planner makes them: no index twice, no chunk of negative
  length \<open>span\<close>, and the frame total and the number of chunks are values of a Go
  \<open>int\<close>.
\<close>

definition span :: "Chunk \<Rightarrow> int" where
  "span ch = End ch - Start ch"

definition valid_plan :: "Chunk list \<Rightarrow> bool" where
  "valid_plan chunks \<longleftrightarrow>
     distinct (map Idx chunks)
     \<and> list_all (\<lambda>ch. 0 \<le> span ch) chunks
     \<and> sum_list (map span chunks) < 2 ^ 63
     \<and> int (length chunks) < 2 ^ 63"





section \<open>Crop detection (package processing)\<close>

text \<open>
  \<open>DetectCrop\<close> takes 141 samples of the video with \<open>ffmpeg\<close> and counts in the map
  \<open>cropCounts\<close>, for every crop rectangle that some sample gave, the samples that gave
  it. What it does with the counts is the function below. Of \<open>props\<close> it reads the
  width and the height. The map is given by its entries in the order in which \<open>range\<close>
  visits them, an order that Go leaves open; its counts are positive and add up to at
  most 141, so their conversions to \<open>float64\<close> are exact.
\<close>

record CropResult =
  CropFilter :: string
  Required :: bool
  MultipleRatios :: bool
  Message :: string

record VideoProperties =
  props_Width :: uint32
  props_Height :: uint32

text \<open>\<open>numSamples\<close> is \<open>len(samplePoints)\<close>, one point for each \<open>i\<close> from 30 to 170.\<close>

definition numSamples :: int where
  "numSamples = 141"

definition sampleMsg :: string where
  "sampleMsg = ''Analyzed '' @ fmt_int numSamples @ '' samples''"

text \<open>
  \<open>sort.Slice\<close> sorts by a \<open>less\<close> function and does not say in which order it leaves
  elements of which neither is less than the other. Here it is sorting by insertion,
  which keeps their order. \<open>DetectCrop\<close> only uses the first element of the sorted
  entries, and the entries come in any order, so that this first element can be any
  entry of greatest count, as in Go.
\<close>

fun insert_sorted :: "('a \<Rightarrow> 'a \<Rightarrow> bool) \<Rightarrow> 'a \<Rightarrow> 'a list \<Rightarrow> 'a list" where
  "insert_sorted lessFn x [] = [x]"
| "insert_sorted lessFn x (y # ys) =
     (if lessFn y x then y # insert_sorted lessFn x ys else x # y # ys)"

definition sort_Slice :: "('a \<Rightarrow> 'a \<Rightarrow> bool) \<Rightarrow> 'a list \<Rightarrow> 'a list" where
  "sort_Slice lessFn xs = foldr (insert_sorted lessFn) xs []"

definition DetectCrop :: "VideoProperties \<Rightarrow> bool \<Rightarrow> (string \<times> int) list \<Rightarrow> CropResult" where
  "DetectCrop props disableCrop cropCounts =
     (if disableCrop
      then \<lparr>CropFilter = [], Required = False, MultipleRatios = False, Message = ''Skipped''\<rparr>
      else if length cropCounts = 0
      then \<lparr>CropFilter = [], Required = False, MultipleRatios = False, Message = sampleMsg\<rparr>
      else if length cropCounts = 1
      then
        let crop = fst (hd cropCounts)
        in if \<not> isEffectiveCrop crop (props_Width props) (props_Height props)
           then \<lparr>CropFilter = [], Required = False, MultipleRatios = False, Message = sampleMsg\<rparr>
           else \<lparr>CropFilter = ''crop='' @ crop, Required = True, MultipleRatios = False,
                 Message = ''Black bars detected''\<rparr>
      else
        let sorted = sort_Slice (\<lambda>a b. snd a > snd b) cropCounts;
            totalSamples = fold (\<lambda>(crop, count) totalSamples. wrap64 (totalSamples + count))
                             cropCounts 0;
            mostCommon = hd sorted
        in if ratio_exceeds_0_8 (nat (snd mostCommon)) (nat totalSamples)
           then
             if \<not> isEffectiveCrop (fst mostCommon) (props_Width props) (props_Height props)
             then \<lparr>CropFilter = [], Required = False, MultipleRatios = False, Message = sampleMsg\<rparr>
             else \<lparr>CropFilter = ''crop='' @ fst mostCommon, Required = True,
                   MultipleRatios = False, Message = ''Black bars detected''\<rparr>
           else \<lparr>CropFilter = [], Required = False, MultipleRatios = True,
                 Message = ''Multiple aspect ratios detected''\<rparr>)"

section \<open>Decimal numbers: printing and parsing\<close>

lemma digit_char_cases:
  "d < 10 \<Longrightarrow> d = 0 \<or> d = 1 \<or> d = 2 \<or> d = 3 \<or> d = 4 \<or> d = 5 \<or> d = 6 \<or> d = 7 \<or> d = 8 \<or> d = (9::nat)"
  by arith

lemma digit_char_digit: "d < 10 \<Longrightarrow> is_digit (digit_char d) \<and> digit_val (digit_char d) = d"
  using digit_char_cases [of d] by (auto simp: is_digit_def digit_val_def digit_char_def)

lemma fmt_nat_digits: "list_all is_digit (fmt_nat n)"
proof (induction n rule: fmt_nat.induct)
  case (1 n)
  show ?case
  proof (cases "n < 10")
    case True
    then show ?thesis by (subst fmt_nat.simps) (simp add: digit_char_digit)
  next
    case False
    then show ?thesis using "1" by (subst fmt_nat.simps) (simp add: digit_char_digit)
  qed
qed

lemma fmt_nat_nonempty: "fmt_nat n \<noteq> []"
  by (subst fmt_nat.simps) simp

lemma dec_val_snoc: "dec_val acc (s @ [c]) = dec_val acc s * 10 + digit_val c"
  by (simp add: dec_val_def)

lemma dec_val_fmt_nat: "dec_val 0 (fmt_nat n) = n"
proof (induction n rule: fmt_nat.induct)
  case (1 n)
  show ?case
  proof (cases "n < 10")
    case True
    then show ?thesis by (subst fmt_nat.simps) (simp add: dec_val_def digit_char_digit)
  next
    case False
    then show ?thesis using "1"
      by (subst fmt_nat.simps) (simp add: dec_val_snoc digit_char_digit)
  qed
qed

lemma dec_val_ge: "acc \<le> dec_val acc s"
proof (induction s arbitrary: acc)
  case Nil
  then show ?case by (simp add: dec_val_def)
next
  case (Cons c cs)
  have "acc \<le> acc * 10 + digit_val c" by simp
  also have "\<dots> \<le> dec_val (acc * 10 + digit_val c) cs" by (rule Cons.IH)
  finally show ?case by (simp add: dec_val_def)
qed

lemma parse_digits_ok:
  assumes "list_all is_digit s" "dec_val acc s \<le> maxVal" "maxVal < 2 ^ 64"
  shows "parse_digits maxVal acc s = Inr (dec_val acc s)"
  using assms
proof (induction s arbitrary: acc)
  case Nil
  then show ?case by (simp add: dec_val_def)
next
  case (Cons c cs)
  let ?n1 = "acc * 10 + digit_val c"
  have step: "dec_val acc (c # cs) = dec_val ?n1 cs" by (simp add: dec_val_def)
  have "?n1 \<le> dec_val ?n1 cs" by (rule dec_val_ge)
  with Cons.prems step have le: "?n1 \<le> maxVal" by simp
  with Cons.prems have lt: "?n1 < 2 ^ 64" by simp
  then have "acc < 2 ^ 64 div 10 + 1" by simp
  moreover have "parse_digits maxVal ?n1 cs = Inr (dec_val ?n1 cs)"
    using Cons.prems step by (intro Cons.IH) simp_all
  ultimately show ?case using Cons.prems le lt step by (simp add: Let_def)
qed

lemma parse_digits_Inr:
  assumes "parse_digits maxVal acc s = Inr n"
  shows "list_all is_digit s \<and> n = dec_val acc s \<and> (s \<noteq> [] \<longrightarrow> n \<le> maxVal)"
  using assms
proof (induction s arbitrary: acc)
  case Nil
  then show ?case by (simp add: dec_val_def)
next
  case (Cons c cs)
  let ?n1 = "acc * 10 + digit_val c"
  from Cons.prems have d: "is_digit c" and le: "?n1 \<le> maxVal"
    and rest: "parse_digits maxVal ?n1 cs = Inr n"
    by (auto simp: Let_def split: if_splits)
  from Cons.IH [OF rest] have ih: "list_all is_digit cs" "n = dec_val ?n1 cs"
    "cs \<noteq> [] \<longrightarrow> n \<le> maxVal" by blast+
  have "n \<le> maxVal"
  proof (cases cs)
    case Nil
    with ih le show ?thesis by (simp add: dec_val_def)
  next
    case (Cons a list)
    with ih show ?thesis by simp
  qed
  with d ih show ?case by (simp add: dec_val_def)
qed

text \<open>A string is accepted by \<open>ParseUint\<close> exactly when it is a non-empty run of decimal
  digits whose value fits the bit size.\<close>

lemma ParseUint_iff:
  assumes "bitSize \<le> 64"
  shows "ParseUint s bitSize = Inr n \<longleftrightarrow>
         s \<noteq> [] \<and> list_all is_digit s \<and> n = dec_val 0 s \<and> n < 2 ^ bitSize"
proof -
  have m: "(2::nat) ^ bitSize - 1 < 2 ^ 64"
  proof -
    have "(2::nat) ^ bitSize \<le> 2 ^ 64" using assms by (intro power_increasing) simp_all
    moreover have "(0::nat) < 2 ^ bitSize" by simp
    ultimately show ?thesis by linarith
  qed
  have lt: "\<And>k. k \<le> 2 ^ bitSize - 1 \<longleftrightarrow> k < (2::nat) ^ bitSize"
  proof -
    fix k :: nat
    have "(0::nat) < 2 ^ bitSize" by simp
    then show "k \<le> 2 ^ bitSize - 1 \<longleftrightarrow> k < (2::nat) ^ bitSize" by linarith
  qed
  show ?thesis
  proof
    assume a: "ParseUint s bitSize = Inr n"
    then have ne: "s \<noteq> []" by (auto simp: ParseUint_def split: if_splits)
    with a have "parse_digits (2 ^ bitSize - 1) 0 s = Inr n" by (simp add: ParseUint_def)
    from parse_digits_Inr [OF this] ne lt show
      "s \<noteq> [] \<and> list_all is_digit s \<and> n = dec_val 0 s \<and> n < 2 ^ bitSize" by simp
  next
    assume a: "s \<noteq> [] \<and> list_all is_digit s \<and> n = dec_val 0 s \<and> n < 2 ^ bitSize"
    then have "dec_val 0 s \<le> 2 ^ bitSize - 1" using lt by simp
    with a m have "parse_digits (2 ^ bitSize - 1) 0 s = Inr (dec_val 0 s)"
      by (intro parse_digits_ok) simp_all
    with a show "ParseUint s bitSize = Inr n" by (simp add: ParseUint_def)
  qed
qed

lemma ParseUint_fmt_nat: "n < 2 ^ bitSize \<Longrightarrow> bitSize \<le> 64 \<Longrightarrow> ParseUint (fmt_nat n) bitSize = Inr n"
  by (simp add: ParseUint_iff fmt_nat_nonempty fmt_nat_digits dec_val_fmt_nat)

lemma hd_fmt_nat: "is_digit (hd (fmt_nat n))"
  using fmt_nat_digits [of n] fmt_nat_nonempty [of n] by (cases "fmt_nat n") simp_all

lemma Atoi_fmt_int:
  assumes "- (2 ^ 63) \<le> i" "i < 2 ^ 63"
  shows "Atoi (fmt_int i) = Inr i"
proof (cases "i < 0")
  case True
  then have n: "nat (- i) \<le> 2 ^ 63" using assms by simp
  then have "nat (- i) < 2 ^ 64" by simp
  then have "ParseUint (fmt_nat (nat (- i))) 64 = Inr (nat (- i))"
    by (intro ParseUint_fmt_nat) simp_all
  with True n show ?thesis by (simp add: Atoi_def fmt_int_def Let_def)
next
  case False
  then have n: "nat i < 2 ^ 63" using assms by simp
  then have "nat i < 2 ^ 64" by simp
  then have p: "ParseUint (fmt_nat (nat i)) 64 = Inr (nat i)"
    by (intro ParseUint_fmt_nat) simp_all
  have "hd (fmt_nat (nat i)) \<noteq> CHR ''-''" "hd (fmt_nat (nat i)) \<noteq> CHR ''+''"
    using hd_fmt_nat [of "nat i"] by (auto simp: is_digit_def)
  with False n p show ?thesis
    by (simp add: Atoi_def fmt_int_def Let_def fmt_nat_nonempty)
qed

section \<open>Printed numbers between white space\<close>

lemma number_char_byte: "number_char c \<Longrightarrow> (of_char c :: nat) = 45 \<or> (48 \<le> (of_char c :: nat) \<and> (of_char c :: nat) \<le> 57)"
  by (auto simp: number_char_def is_digit_def)

lemma space_bytes_number:
  assumes "b0 = 45 \<or> (48 \<le> b0 \<and> b0 \<le> 57)"
  shows "space_bytes b0 b1 b2 = 0"
proof -
  from assms have "\<not> (9 \<le> b0 \<and> b0 \<le> 13)" "b0 \<noteq> 32" "b0 \<noteq> 194" "b0 \<noteq> 225"
    "b0 \<noteq> 226" "b0 \<noteq> 227"
    by linarith+
  then show ?thesis by (simp add: space_bytes_def)
qed

lemma space_width_number: "number_char c \<Longrightarrow> space_width (c # cs) = 0"
proof -
  assume "number_char c"
  then have "space_bytes (of_char c) (byte_at (c # cs) 1) (byte_at (c # cs) 2) = 0"
    by (intro space_bytes_number number_char_byte)
  moreover have "byte_at (c # cs) 0 = of_char c" by (simp add: byte_at_def)
  ultimately show ?thesis by (simp only: space_width_def)
qed

lemma space_width_blank: "space_width (CHR '' '' # cs) = 1"
  by (simp add: space_width_def space_bytes_def byte_at_def)

lemma space_width_rev_digit: "is_digit c \<Longrightarrow> space_width_rev (c # cs) = 0"
  by (auto simp: space_width_rev_def space_bytes_def byte_at_def is_digit_def)

lemma fields_from_number:
  "list_all number_char t \<Longrightarrow> fields_from cur (t @ rest) = fields_from (cur @ t) rest"
  by (induction t arbitrary: cur) (simp_all add: space_width_number)

lemma fields_from_blank:
  "fields_from cur (CHR '' '' # rest) = (if cur = [] then [] else [cur]) @ fields_from [] rest"
  by (simp add: space_width_blank)

lemma Fields_three:
  assumes "list_all number_char a" "list_all number_char b" "list_all number_char d"
    and "a \<noteq> []" "b \<noteq> []" "d \<noteq> []"
  shows "Fields (a @ '' '' @ b @ '' '' @ d) = [a, b, d]"
proof -
  have s3: "fields_from [] d = [d]"
    using fields_from_number [OF assms(3), of "[]" "[]"] assms(6) by simp
  have s2: "fields_from [] (b @ CHR '' '' # d) = [b, d]"
  proof -
    have "fields_from [] (b @ CHR '' '' # d) = fields_from b (CHR '' '' # d)"
      using fields_from_number [OF assms(2), of "[]"] by simp
    also have "\<dots> = [b] @ fields_from [] d"
      using assms(5) by (simp only: fields_from_blank if_False)
    finally show ?thesis using s3 by simp
  qed
  have "fields_from [] (a @ CHR '' '' # b @ CHR '' '' # d) = fields_from a (CHR '' '' # b @ CHR '' '' # d)"
    using fields_from_number [OF assms(1), of "[]"] by simp
  also have "\<dots> = [a] @ fields_from [] (b @ CHR '' '' # d)"
    using assms(4) by (simp only: fields_from_blank if_False)
  finally show ?thesis using s2 by (simp add: Fields_def)
qed

lemma TrimSpace_number:
  assumes "s \<noteq> []" "number_char (hd s)" "is_digit (last s)"
  shows "TrimSpace s = s"
proof -
  from assms obtain c cs where s: "s = c # cs" by (cases s) auto
  with assms have l: "trim_left s = s" by (simp add: space_width_number)
  from assms have "rev s \<noteq> []" by simp
  then obtain d ds where r: "rev s = d # ds" by (cases "rev s") auto
  then have "d = last s" using assms(1) by (metis hd_rev list.sel(1))
  with assms have "trim_right_rev (d # ds) = d # ds" by (simp add: space_width_rev_digit)
  with r have "trim_right_rev (rev s) = rev s" by simp
  with l show ?thesis by (simp add: TrimSpace_def)
qed

lemma fmt_nat_last: "is_digit (last (fmt_nat n))"
  using fmt_nat_digits [of n] fmt_nat_nonempty [of n]
  by (metis last_in_set list_all_iff)

lemma fmt_int_numbers: "list_all number_char (fmt_int i)"
  using fmt_nat_digits by (auto simp: fmt_int_def number_char_def list_all_iff)

lemma fmt_nat_numbers: "list_all number_char (fmt_nat n)"
  using fmt_nat_digits by (auto simp: number_char_def list_all_iff)

lemma fmt_int_nonempty: "fmt_int i \<noteq> []"
  by (simp add: fmt_int_def fmt_nat_nonempty)

lemma fmt_nat_length: "n < 10 ^ k \<Longrightarrow> 0 < k \<Longrightarrow> length (fmt_nat n) \<le> k"
proof (induction n arbitrary: k rule: fmt_nat.induct)
  case (1 n)
  show ?case
  proof (cases "n < 10")
    case True
    with "1.prems" show ?thesis by (subst fmt_nat.simps) simp
  next
    case False
    obtain j where k: "k = Suc j" using "1.prems" by (cases k) auto
    have "j \<noteq> 0" using False "1.prems" k by (cases j) auto
    moreover have "n div 10 < 10 ^ j" using "1.prems" k by (simp add: less_mult_imp_div_less)
    ultimately have "length (fmt_nat (n div 10)) \<le> j" using "1.IH" [OF False, of j] by simp
    with False k show ?thesis by (subst fmt_nat.simps) simp
  qed
qed

lemma fmt_nat_length20: "n < 2 ^ 64 \<Longrightarrow> length (fmt_nat n) \<le> 20"
  by (rule fmt_nat_length) simp_all

lemma fmt_int_length: "in_int64 i \<Longrightarrow> length (fmt_int i) \<le> 21"
proof -
  assume "in_int64 i"
  then have "- (2 ^ 63) \<le> i" "i < 2 ^ 63" by (simp_all add: in_int64_def)
  then have "nat (- i) < 2 ^ 64" "nat i < 2 ^ 64" by (auto simp: nat_less_iff)
  then have "length (fmt_nat (nat (- i))) \<le> 20" "length (fmt_nat (nat i)) \<le> 20"
    by (simp_all add: fmt_nat_length20)
  then show ?thesis by (simp add: fmt_int_def)
qed

section \<open>Output dimensions after a crop\<close>

lemma ParseUint_cases:
  assumes "bitSize \<le> 64"
  shows "(uint_literal bitSize s \<and> ParseUint s bitSize = Inr (dec_val 0 s))
         \<or> (\<not> uint_literal bitSize s \<and> (\<exists>e. ParseUint s bitSize = Inl e))"
proof (cases "ParseUint s bitSize")
  case (Inl e)
  then have "\<not> uint_literal bitSize s"
    using ParseUint_iff [OF assms, of s "dec_val 0 s"] by (auto simp: uint_literal_def)
  with Inl show ?thesis by simp
next
  case (Inr n)
  then show ?thesis using ParseUint_iff [OF assms, of s n] by (auto simp: uint_literal_def)
qed

theorem GetOutputDimensions_total:
  "GetOutputDimensions w h f =
     (let fields = Split (TrimPrefix f ''crop='') (CHR '':'')
      in if f \<noteq> [] \<and> 2 \<le> length fields
            \<and> uint_literal 32 (fields ! 0) \<and> uint_literal 32 (fields ! 1)
         then (word_of_nat (dec_val 0 (fields ! 0)), word_of_nat (dec_val 0 (fields ! 1)))
         else (w, h))"
proof (cases "Split (TrimPrefix f ''crop='') (CHR '':'')")
  case Nil
  then show ?thesis by (simp add: GetOutputDimensions_def)
next
  case (Cons p0 ps)
  note outer = Cons
  show ?thesis
  proof (cases ps)
    case Nil
    with outer show ?thesis by (simp add: GetOutputDimensions_def)
  next
    case (Cons p1 rest)
    have c0: "(uint_literal 32 p0 \<and> ParseUint p0 32 = Inr (dec_val 0 p0))
         \<or> (\<not> uint_literal 32 p0 \<and> (\<exists>e. ParseUint p0 32 = Inl e))"
      by (rule ParseUint_cases) simp
    have c1: "(uint_literal 32 p1 \<and> ParseUint p1 32 = Inr (dec_val 0 p1))
         \<or> (\<not> uint_literal 32 p1 \<and> (\<exists>e. ParseUint p1 32 = Inl e))"
      by (rule ParseUint_cases) simp
    from c0 c1 outer Cons show ?thesis
      by (auto simp: GetOutputDimensions_def Let_def)
  qed
qed

theorem GetOutputDimensions_total_witness:
  "GetOutputDimensions 1920 1080 ''crop=1920:800:0:140'' = (1920, 800)
   \<and> GetOutputDimensions 1920 1080 ''crop=1920:8x0:0:140'' = (1920, 1080)
   \<and> GetOutputDimensions 1920 1080 ''1920'' = (1920, 1080)"
  using GetOutputDimensions_total [of 1920 1080 "''crop=1920:800:0:140''"]
    GetOutputDimensions_total [of 1920 1080 "''crop=1920:8x0:0:140''"]
    GetOutputDimensions_total [of 1920 1080 "''1920''"]
  by (simp add: TrimPrefix_def HasPrefix_def uint_literal_def is_digit_def dec_val_def
      digit_val_def)

section \<open>The resume log: appending and reading\<close>

lemma hd_fmt_int: "number_char (hd (fmt_int i))"
  using fmt_int_numbers [of i] fmt_int_nonempty [of i] by (cases "fmt_int i") simp_all

lemma unat64_lt: "unat (w :: uint64) < 2 ^ 64"
  using unsigned_less [of w, where ?'a = nat] by simp

lemma parse_done_body:
  assumes "in_int64 (comp_Idx c)" "in_int64 (comp_Frames c)"
  shows "parse_done_line (done_body c) = Some c"
proof -
  let ?a = "fmt_int (comp_Idx c)" and ?b = "fmt_int (comp_Frames c)"
    and ?d = "fmt_nat (unat (comp_Size c))"
  have ne: "done_body c \<noteq> []" by (simp add: done_body_def fmt_int_nonempty)
  have h: "number_char (hd (done_body c))"
    using hd_fmt_int [of "comp_Idx c"] fmt_int_nonempty [of "comp_Idx c"]
    by (simp add: done_body_def)
  have l: "is_digit (last (done_body c))"
    using fmt_nat_last [of "unat (comp_Size c)"] fmt_nat_nonempty [of "unat (comp_Size c)"]
    by (simp add: done_body_def)
  have trim: "TrimSpace (done_body c) = done_body c"
    using ne h l by (rule TrimSpace_number)
  have fields: "Fields (done_body c) = [?a, ?b, ?d]"
    unfolding done_body_def
    by (rule Fields_three) (simp_all add: fmt_int_numbers fmt_nat_numbers fmt_int_nonempty fmt_nat_nonempty)
  have a: "Atoi ?a = Inr (comp_Idx c)" "Atoi ?b = Inr (comp_Frames c)"
    using assms by (simp_all add: Atoi_fmt_int in_int64_def)
  have d: "ParseUint ?d 64 = Inr (unat (comp_Size c))"
    using unat64_lt [of "comp_Size c"] by (intro ParseUint_fmt_nat) simp_all
  show ?thesis
    using ne by (simp add: parse_done_line_def trim fields a d)
qed

lemma raw_lines_no_lf:
  "CHR 0x0A \<notin> set t \<Longrightarrow> raw_lines cur (t @ [CHR 0x0A]) = [cur @ t]"
  by (induction t arbitrary: cur) auto

lemma raw_lines_append:
  "raw_lines cur (a @ CHR 0x0A # b) = raw_lines cur (a @ [CHR 0x0A]) @ raw_lines [] b"
  by (induction a arbitrary: cur) auto

lemma raw_lines_after:
  assumes "old = [] \<or> last old = CHR 0x0A"
  shows "raw_lines [] (old @ b) = raw_lines [] old @ raw_lines [] b"
proof (cases "old = []")
  case True
  then show ?thesis by simp
next
  case False
  with assms obtain a where old: "old = a @ [CHR 0x0A]"
    by (metis append_butlast_last_id)
  show ?thesis using raw_lines_append [of "[]" a b] by (simp add: old)
qed

lemma number_char_not_lf: "number_char c \<Longrightarrow> c \<noteq> CHR 0x0A \<and> c \<noteq> CHR 0x0D \<and> c \<noteq> CHR '' ''"
  by (auto simp: number_char_def is_digit_def)

lemma done_body_no_lf: "CHR 0x0A \<notin> set (done_body c)"
  using fmt_int_numbers [of "comp_Idx c"] fmt_int_numbers [of "comp_Frames c"]
    fmt_nat_numbers [of "unat (comp_Size c)"] number_char_not_lf
  by (auto simp: done_body_def list_all_iff)

lemma done_body_length:
  assumes "in_int64 (comp_Idx c)" "in_int64 (comp_Frames c)"
  shows "length (done_body c) < 65536"
  using fmt_int_length [OF assms(1)] fmt_int_length [OF assms(2)]
    fmt_nat_length20 [OF unat64_lt, of "comp_Size c"]
  by (simp add: done_body_def)

lemma dropCR_done_body: "dropCR (done_body c) = done_body c"
proof -
  have "is_digit (last (done_body c))"
    using fmt_nat_last [of "unat (comp_Size c)"] fmt_nat_nonempty [of "unat (comp_Size c)"]
    by (simp add: done_body_def)
  then have "last (done_body c) \<noteq> CHR 0x0D" by (auto simp: is_digit_def)
  then show ?thesis by (simp add: dropCR_def)
qed

lemma map_filter_append: "List.map_filter f (xs @ ys) = List.map_filter f xs @ List.map_filter f ys"
  by (simp add: List.map_filter_def)

lemma GetResume_after_append:
  assumes rng: "in_int64 (comp_Idx c)" "in_int64 (comp_Frames c)"
    and nl: "old = [] \<or> last old = CHR 0x0A"
    and old: "GetResume (Content old) = Inr r"
  shows "GetResume (Content (old @ done_line c)) = Inr \<lparr>ChunksDone = ChunksDone r @ [c]\<rparr>"
proof -
  let ?ok = "\<lambda>l :: string. length l < 65536"
  have lines: "raw_lines [] (old @ done_line c) = raw_lines [] old @ [done_body c]"
    using raw_lines_after [OF nl, of "done_line c"]
      raw_lines_no_lf [OF done_body_no_lf, of "[]" c]
    by (simp add: done_line_def)
  from old have all: "list_all ?ok (raw_lines [] old)"
    by (auto simp: GetResume_def ScanLines_def Let_def split: option.splits if_splits)
  then have tw: "takeWhile ?ok (raw_lines [] old) = raw_lines [] old"
    by (simp add: list_all_iff)
  from old all tw have r: "ChunksDone r = List.map_filter parse_done_line (map dropCR (raw_lines [] old))"
    by (auto simp: GetResume_def ScanLines_def Let_def split: option.splits if_splits)
  have len: "?ok (done_body c)" using rng by (rule done_body_length)
  have all': "list_all ?ok (raw_lines [] old @ [done_body c])" using all len by simp
  then have tw': "takeWhile ?ok (raw_lines [] old @ [done_body c]) = raw_lines [] old @ [done_body c]"
    by (simp add: list_all_iff)
  have one: "List.map_filter parse_done_line [done_body c] = [c]"
    using parse_done_body [OF rng] by (simp add: List.map_filter_def)
  show ?thesis
    using all' tw' r one
    by (simp add: GetResume_def ScanLines_def Let_def lines map_filter_append dropCR_done_body)
qed

text \<open>
  C7. Formatting a completion record as a line of the resume log with \<open>AppendDone\<close>
  and reading the log with \<open>GetResume\<close> gives the record back: appended to a log
  that is absent, empty or ends in a line feed and that reads as \<open>r\<close>, the log reads
  as \<open>r\<close> followed by the record. The index and the frame count are Go \<open>int\<close>s,
  so they lie in the 64-bit range, which holds all their non-negative values; the size
  is a \<open>uint64\<close>.
\<close>

theorem resume_log_roundtrip:
  assumes "in_int64 (comp_Idx c)" "in_int64 (comp_Frames c)"
    and "well_terminated doneFile"
    and "GetResume doneFile = Inr r"
  shows "GetResume (snd (AppendDone c doneFile)) = Inr \<lparr>ChunksDone = ChunksDone r @ [c]\<rparr>"
proof (cases doneFile)
  case Absent
  with assms(4) have r: "ChunksDone r = []" by (auto simp: GetResume_def)
  have e: "GetResume (Content []) = Inr \<lparr>ChunksDone = []\<rparr>"
    by (simp add: GetResume_def ScanLines_def List.map_filter_def)
  have "GetResume (Content ([] @ done_line c))
        = Inr \<lparr>ChunksDone = ChunksDone \<lparr>ChunksDone = []\<rparr> @ [c]\<rparr>"
    by (rule GetResume_after_append [OF assms(1,2) _ e]) simp
  with Absent r show ?thesis by (simp add: AppendDone_def)
next
  case Unreadable
  with assms(3) show ?thesis by (simp add: well_terminated_def)
next
  case (Content old)
  with assms(3) have "old = [] \<or> last old = CHR 0x0A" by (simp add: well_terminated_def)
  from GetResume_after_append [OF assms(1,2) this] assms(4) Content
  show ?thesis by (simp add: AppendDone_def)
qed

theorem resume_log_roundtrip_witness:
  "in_int64 3 \<and> in_int64 12 \<and> well_terminated Absent
   \<and> GetResume Absent = Inr \<lparr>ChunksDone = []\<rparr>
   \<and> GetResume (snd (AppendDone \<lparr>comp_Idx = 3, comp_Frames = 12, comp_Size = 456\<rparr> Absent))
       = Inr \<lparr>ChunksDone = [\<lparr>comp_Idx = 3, comp_Frames = 12, comp_Size = 456\<rparr>]\<rparr>"
  using resume_log_roundtrip
    [of "\<lparr>comp_Idx = 3, comp_Frames = 12, comp_Size = 456\<rparr>" Absent "\<lparr>ChunksDone = []\<rparr>"]
  by (simp add: in_int64_def well_terminated_def GetResume_def)

section \<open>Scenes and chunks partition the frames\<close>

lemma scenes_from_chain:
  assumes "sorted (x # xs)" "\<forall>y \<in> set (x # xs). y < tf"
  shows "scenes_from (x # xs) tf \<noteq> [] \<and> chain x (scenes_from (x # xs) tf) tf"
  using assms
proof (induction xs arbitrary: x)
  case Nil
  then show ?case by simp
next
  case (Cons y rest)
  then have ih: "scenes_from (y # rest) tf \<noteq> [] \<and> chain y (scenes_from (y # rest) tf) tf"
    by (intro Cons.IH) auto
  from Cons.prems have "x \<le> y" by simp
  with ih show ?case by (cases "x < y") auto
qed

lemma chunkify_from_covers:
  "chain s scenes tf \<Longrightarrow> covers i s (chunkify_from i scenes) tf"
  by (induction scenes arbitrary: i s) auto

lemma chunkify_from_nonempty: "scenes \<noteq> [] \<Longrightarrow> chunkify_from i scenes \<noteq> []"
  by (cases scenes) auto

lemma covers_last: "covers i s cs tf \<Longrightarrow> cs \<noteq> [] \<Longrightarrow> End (last cs) = tf"
  by (induction cs arbitrary: i s) (auto split: if_splits)

lemma covers_adjacent:
  "covers i s cs tf \<Longrightarrow> Suc k < length cs \<Longrightarrow> End (cs ! k) = Start (cs ! Suc k)"
proof (induction cs arbitrary: i s k)
  case Nil
  then show ?case by simp
next
  case (Cons c cs)
  show ?case
  proof (cases k)
    case 0
    with Cons.prems show ?thesis by (cases cs) auto
  next
    case (Suc j)
    with Cons.prems Cons.IH [of "i + 1" "End c" j] show ?thesis by simp
  qed
qed

lemma covers_index: "covers i s cs tf \<Longrightarrow> k < length cs \<Longrightarrow> Idx (cs ! k) = i + int k"
proof (induction cs arbitrary: i s k)
  case Nil
  then show ?case by simp
next
  case (Cons c cs)
  show ?case
  proof (cases k)
    case 0
    with Cons.prems show ?thesis by simp
  next
    case (Suc j)
    with Cons.prems Cons.IH [of "i + 1" "End c" j] show ?thesis by simp
  qed
qed

lemma covers_le: "covers i s cs tf \<Longrightarrow> s \<le> tf"
proof (induction cs arbitrary: i s)
  case Nil
  then show ?case by simp
next
  case (Cons d cs)
  then have "s < End d" "covers (i + 1) (End d) cs tf" by simp_all
  with Cons.IH [of "i + 1" "End d"] show ?case by simp
qed

lemma covers_bounds:
  "covers i s cs tf \<Longrightarrow> c \<in> set cs \<Longrightarrow> s \<le> Start c \<and> Start c < End c \<and> End c \<le> tf"
proof (induction cs arbitrary: i s)
  case Nil
  then show ?case by simp
next
  case (Cons d cs)
  from Cons.prems(1) have d: "Start d = s" "s < End d" and rest: "covers (i + 1) (End d) cs tf"
    by simp_all
  show ?case
  proof (cases "c = d")
    case True
    with d covers_le [OF rest] show ?thesis by simp
  next
    case False
    with Cons.prems(2) have "c \<in> set cs" by simp
    from Cons.IH [OF rest this] d show ?thesis by simp
  qed
qed

lemma wrap64_id: "in_int64 x \<Longrightarrow> wrap64 x = x"
  by (simp add: in_int64_def wrap64_def)

lemma covers_exact_partition:
  assumes "covers 0 0 cs tf" "cs \<noteq> []" "in_int64 tf"
  shows "exact_partition cs tf"
proof -
  from assms(1,2) have "Start (hd cs) = 0" by (cases cs) auto
  moreover have "End (last cs) = tf" using assms(1,2) by (rule covers_last)
  moreover have "\<forall>k. Suc k < length cs \<longrightarrow> End (cs ! k) = Start (cs ! Suc k)"
    using covers_adjacent [OF assms(1)] by blast
  moreover have "\<forall>k < length cs. Idx (cs ! k) = int k"
    using covers_index [OF assms(1)] by simp
  moreover have "\<forall>c \<in> set cs. 1 \<le> End c - Start c \<and> Chunk_Frames c = End c - Start c"
  proof
    fix c assume "c \<in> set cs"
    from covers_bounds [OF assms(1) this] have b: "0 \<le> Start c" "Start c < End c" "End c \<le> tf"
      by simp_all
    with assms(3) have "in_int64 (End c - Start c)" by (simp add: in_int64_def)
    with b show "1 \<le> End c - Start c \<and> Chunk_Frames c = End c - Start c"
      by (simp add: Chunk_Frames_def wrap64_id)
  qed
  ultimately show ?thesis using assms(2) by (simp add: exact_partition_def)
qed

lemma frameNums_ready:
  assumes "0 < tf" "\<forall>n \<in> set nums. 0 \<le> n \<and> n < tf"
  defines "frameNums \<equiv> (if sort nums = [] \<or> hd (sort nums) \<noteq> 0 then 0 # sort nums else sort nums)"
  shows "\<exists>xs. frameNums = 0 # xs \<and> sorted (0 # xs) \<and> (\<forall>y \<in> set (0 # xs). y < tf)"
proof (cases "sort nums = [] \<or> hd (sort nums) \<noteq> 0")
  case True
  then have "frameNums = 0 # sort nums" by (simp add: frameNums_def)
  moreover have "sorted (0 # sort nums)" using assms(2) by simp
  moreover have "\<forall>y \<in> set (0 # sort nums). y < tf" using assms(1,2) by simp
  ultimately show ?thesis by blast
next
  case False
  then obtain xs where xs: "sort nums = 0 # xs" by (cases "sort nums") auto
  then have "frameNums = 0 # xs" using False by (simp add: frameNums_def)
  moreover have "sorted (0 # xs)" using sorted_sort [of nums] xs by simp
  moreover have "\<forall>y \<in> set (0 # xs). y < tf"
  proof -
    have "set (0 # xs) = set nums" using xs by (metis set_sort)
    with assms(2) show ?thesis by simp
  qed
  ultimately show ?thesis by blast
qed

text \<open>
  C2. For a positive \<open>totalFrames\<close> (a Go \<open>int\<close>) and a scenes file whose lines are
  frame numbers \<open>n\<close> with \<open>0 \<le> n < totalFrames\<close>, \<open>LoadScenes\<close> succeeds and
  \<open>Chunkify\<close> of its scenes is an exact partition of the frames below
  \<open>totalFrames\<close>: at least one chunk, the first starts at 0, each ends where the next
  starts, the last ends at \<open>totalFrames\<close>, the indices are 0, 1, ..., and every chunk
  has at least one frame.
\<close>

theorem LoadScenes_Chunkify_partition:
  assumes "0 < totalFrames" "in_int64 totalFrames"
    and "ScanLines content = (ls, None)"
    and "parse_frame_lines ls = Inr nums"
    and "\<forall>n \<in> set nums. 0 \<le> n \<and> n < totalFrames"
  shows "\<exists>scenes. LoadScenes (Content content) totalFrames = Inr scenes
           \<and> exact_partition (Chunkify scenes) totalFrames"
proof -
  let ?frameNums = "if sort nums = [] \<or> hd (sort nums) \<noteq> 0 then 0 # sort nums else sort nums"
  from frameNums_ready [OF assms(1,5)] obtain xs
    where xs: "?frameNums = 0 # xs" "sorted (0 # xs)" "\<forall>y \<in> set (0 # xs). y < totalFrames"
    by blast
  let ?scenes = "scenes_from (0 # xs) totalFrames"
  have load: "LoadScenes (Content content) totalFrames = Inr ?scenes"
    using assms(3,4) xs(1) by (simp add: LoadScenes_def Let_def)
  from scenes_from_chain [OF xs(2,3)]
  have ne: "?scenes \<noteq> []" and ch: "chain 0 ?scenes totalFrames" by simp_all
  have "covers 0 0 (Chunkify ?scenes) totalFrames"
    using chunkify_from_covers [OF ch] by (simp add: Chunkify_def)
  moreover have "Chunkify ?scenes \<noteq> []"
    using chunkify_from_nonempty [OF ne] by (simp add: Chunkify_def)
  ultimately have "exact_partition (Chunkify ?scenes) totalFrames"
    using assms(2) by (rule covers_exact_partition)
  with load show ?thesis by blast
qed

theorem LoadScenes_Chunkify_partition_witness:
  "(0::int) < 20 \<and> in_int64 20
   \<and> ScanLines ''5\<newline>0\<newline>12'' = ([''5'', ''0'', ''12''], None)
   \<and> parse_frame_lines [''5'', ''0'', ''12''] = Inr [5, 0, 12]
   \<and> list_all (\<lambda>n. 0 \<le> n \<and> n < 20) [5, 0, 12 :: int]
   \<and> (\<exists>scenes. LoadScenes (Content ''5\<newline>0\<newline>12'') 20 = Inr scenes
         \<and> exact_partition (Chunkify scenes) 20)"
proof -
  have a: "ScanLines ''5\<newline>0\<newline>12'' = ([''5'', ''0'', ''12''], None)"
    by (simp add: ScanLines_def dropCR_def)
  have b: "parse_frame_lines [''5'', ''0'', ''12''] = Inr [5, 0, 12]"
    by (simp add: TrimSpace_def space_width_def space_width_rev_def space_bytes_def byte_at_def
        Atoi_def ParseUint_def is_digit_def digit_val_def)
  have c: "\<forall>n \<in> set [5, 0, 12 :: int]. 0 \<le> n \<and> n < 20" by simp
  have d: "in_int64 20" by (simp add: in_int64_def)
  from LoadScenes_Chunkify_partition [OF _ d a b c] a b c d show ?thesis by simp
qed

section \<open>Workers and memory\<close>

lemma bit_length_0: "bit_length 0 = 0"
  by (subst bit_length.simps) simp

lemma bit_length_1: "bit_length (Suc 0) = Suc 0"
  by (subst bit_length.simps) (simp add: bit_length_0)

lemma bit_length_numeral: "bit_length (numeral k) = Suc (bit_length (numeral k div 2))"
  by (subst bit_length.simps) simp

lemmas bit_length_eval = bit_length_0 bit_length_1 bit_length_numeral

text \<open>With 12 GiB available the product is 9019431321 bytes, which is the integer part of
  8.4 GiB; with 45 GiB it is one byte less than 31.5 GiB, and with 64 GiB it is the
  integer part of 44.8 GiB.\<close>

lemma usable_memory_12GiB: "usable_memory 12884901888 = 9019431321"
  by (simp add: usable_memory_def round53_def MemoryFraction_mantissa_def Let_def
      bit_length_eval)

lemma usable_memory_45GiB: "usable_memory 48318382080 = 33822867455"
  by (simp add: usable_memory_def round53_def MemoryFraction_mantissa_def Let_def
      bit_length_eval)

lemma usable_memory_64GiB: "usable_memory 68719476736 = 48103633715"
  by (simp add: usable_memory_def round53_def MemoryFraction_mantissa_def Let_def
      bit_length_eval)

lemma memoryPerWorker_classes:
  "memoryPerWorker width height =
     (if 3840 \<le> unat width \<or> 2160 \<le> unat height then 5 * 2 ^ 30
      else if 1920 \<le> unat width \<or> 1080 \<le> unat height then 2 * 2 ^ 30
      else 2 ^ 29)"
  by (simp add: memoryPerWorker_def MemPerWorker4K_def MemPerWorker1080p_def
      MemPerWorkerSD_def word_le_nat_alt)

text \<open>
  C4, as the specification states it, fails where the available memory reads 0, which is
  how the host reports that it cannot tell: the formula gives one worker, the code
  keeps all eight and reports no cap.
\<close>

theorem CapWorkers_unknown_memory:
  "CapWorkers \<lparr>AvailableMemoryBytes = 0, PhysicalCores = 8, LogicalCores = 16\<rparr> 8 3840 2160
     = (8, False)
   \<and> specified_workers 0 (memoryPerWorker 3840 2160) 8 = 1"
  by (simp add: CapWorkers_def specified_workers_def clamp_def memoryPerWorker_classes)

text \<open>
  In floating point the formula also differs from exact arithmetic: with 45 GiB
  available and the SD class the code computes 62 workers where the exact quotient
  is 63.
\<close>

lemma CapWorkers_float_rounding:
  "CapWorkers \<lparr>AvailableMemoryBytes = 48318382080, PhysicalCores = 8, LogicalCores = 16\<rparr>
     64 1280 720 = (62, True)
   \<and> specified_workers 48318382080 (memoryPerWorker 1280 720) 64 = 63"
  by (simp add: CapWorkers_def specified_workers_def clamp_def memoryPerWorker_classes
      usable_memory_45GiB)

text \<open>
  C4, amended. For a request \<open>W_req \<ge> 1\<close>: when the available memory reads 0 the
  worker count is \<open>W_req\<close> and no cap is reported; otherwise it is
  \<open>clamp (floor (usable / class)) 1 W_req\<close>, where \<open>usable\<close> is the \<open>float64\<close>
  product of the reading and 0.7 cut to an integer and \<open>class\<close> is 5 GiB from width
  3840 or height 2160, 2 GiB from width 1920 or height 1080 and 0.5 GiB below, and the
  cap is reported exactly when the count is below \<open>W_req\<close>.
\<close>

theorem CapWorkers_clamp:
  assumes "1 \<le> W_req"
  shows "CapWorkers h W_req width height =
     (if AvailableMemoryBytes h = 0 then (W_req, False)
      else
        let class = (if 3840 \<le> unat width \<or> 2160 \<le> unat height then 5 * 2 ^ 30
                     else if 1920 \<le> unat width \<or> 1080 \<le> unat height then 2 * 2 ^ 30
                     else 2 ^ 29);
            W = clamp (int (usable_memory (AvailableMemoryBytes h) div class)) 1 W_req
        in (W, W < W_req))"
proof (cases "AvailableMemoryBytes h = 0")
  case True
  then show ?thesis by (simp add: CapWorkers_def)
next
  case False
  then have pos: "AvailableMemoryBytes h > 0" by (simp add: word_greater_zero_iff)
  define m where "m = int (usable_memory (AvailableMemoryBytes h) div memoryPerWorker width height)"
  have cap: "CapWorkers h W_req width height =
      (if W_req > max m 1 then (max m 1, True) else (W_req, False))"
    using pos by (simp add: CapWorkers_def Let_def m_def)
  have "(if W_req > max m 1 then (max m 1, True) else (W_req, False))
        = (clamp m 1 W_req, clamp m 1 W_req < W_req)"
    using assms by (simp add: clamp_def max_def min_def)
  with cap have "CapWorkers h W_req width height = (clamp m 1 W_req, clamp m 1 W_req < W_req)"
    by simp
  then show ?thesis
    using False unfolding m_def memoryPerWorker_classes Let_def by simp
qed

theorem CapWorkers_clamp_witness:
  "(1::int) \<le> 8
   \<and> CapWorkers \<lparr>AvailableMemoryBytes = 12884901888, PhysicalCores = 8, LogicalCores = 16\<rparr>
        8 3840 2160 = (1, True)"
  using CapWorkers_clamp
    [of 8 "\<lparr>AvailableMemoryBytes = 12884901888, PhysicalCores = 8, LogicalCores = 16\<rparr>"
      3840 2160]
  by (simp add: usable_memory_12GiB clamp_def)

text \<open>
  C9, as stated, fails: the result depends on the memory reading, which is no argument
  of \<open>CapWorkers\<close>. Two hosts, the same request and frame size, different results.
\<close>

theorem CapWorkers_depends_on_host:
  "CapWorkers \<lparr>AvailableMemoryBytes = 12884901888, PhysicalCores = 8, LogicalCores = 16\<rparr>
     8 3840 2160
   \<noteq> CapWorkers \<lparr>AvailableMemoryBytes = 68719476736, PhysicalCores = 8, LogicalCores = 16\<rparr>
       8 3840 2160"
  by (simp add: CapWorkers_def memoryPerWorker_classes usable_memory_12GiB
      usable_memory_64GiB)

text \<open>
  C9, amended. The result also depends on the reading of the available memory, and on
  nothing else of the host. Two invocations with the same requested worker count,
  width and height return the same pair exactly when the two readings allow the same
  number of workers up to the request, where a reading of 0 allows the request and a
  positive reading allows \<open>max 1 (floor (usable / class))\<close>; so they do when the
  readings are equal, or when both hosts have memory for the request, and they do
  not when only one of them has.
\<close>

theorem CapWorkers_same_result_iff:
  "CapWorkers h1 requested width height = CapWorkers h2 requested width height
   \<longleftrightarrow>
     min requested
       (if AvailableMemoryBytes h1 = 0 then requested
        else max 1 (int (usable_memory (AvailableMemoryBytes h1) div memoryPerWorker width height)))
     = min requested
         (if AvailableMemoryBytes h2 = 0 then requested
          else max 1 (int (usable_memory (AvailableMemoryBytes h2) div memoryPerWorker width height)))"
proof -
  have cap: "CapWorkers h requested width height =
      (let W = min requested
                 (if AvailableMemoryBytes h = 0 then requested
                  else max 1 (int (usable_memory (AvailableMemoryBytes h)
                                     div memoryPerWorker width height)))
       in (W, W < requested))" for h
    by (cases "AvailableMemoryBytes h = 0")
      (auto simp: CapWorkers_def Let_def word_greater_zero_iff min_def max_def)
  show ?thesis unfolding cap Let_def by auto
qed

text \<open>
  With 45 GiB and with 64 GiB available, and different processors, a request of four
  workers for a 4K source is granted in full: six and eight workers would fit.
\<close>

theorem CapWorkers_same_result_iff_witness:
  "CapWorkers \<lparr>AvailableMemoryBytes = 48318382080, PhysicalCores = 8, LogicalCores = 16\<rparr>
     4 3840 2160
   = CapWorkers \<lparr>AvailableMemoryBytes = 68719476736, PhysicalCores = 4, LogicalCores = 4\<rparr>
       4 3840 2160"
  using CapWorkers_same_result_iff
    [of "\<lparr>AvailableMemoryBytes = 48318382080, PhysicalCores = 8, LogicalCores = 16\<rparr>"
      4 3840 2160
      "\<lparr>AvailableMemoryBytes = 68719476736, PhysicalCores = 4, LogicalCores = 4\<rparr>"]
  by (simp add: memoryPerWorker_classes usable_memory_45GiB usable_memory_64GiB)

section \<open>The pipeline: resume, errors\<close>

text \<open>Evaluation of the text functions on a given file.\<close>

lemmas text_eval =
  ScanLines_def dropCR_def List.map_filter_def parse_done_line_def
  TrimSpace_def space_width_def space_width_rev_def space_bytes_def byte_at_def Fields_def
  Atoi_def ParseUint_def is_digit_def digit_val_def

lemma fold_DoneSet:
  "map_index (fold (\<lambda>c done. done(comp_Idx c \<mapsto> True)) cs m) i
     \<longleftrightarrow> i \<in> comp_Idx ` set cs \<or> map_index m i"
  by (induction cs arbitrary: m) (auto simp: map_index_def)

lemma DoneSet_lookup: "map_index (DoneSet r) i \<longleftrightarrow> i \<in> comp_Idx ` set (ChunksDone r)"
proof -
  have "map_index Map.empty i = False" by (simp add: map_index_def)
  then show ?thesis unfolding DoneSet_def fold_DoneSet by simp
qed

lemma set_map_filter_iff: "y \<in> set (List.map_filter f xs) \<longleftrightarrow> (\<exists>x \<in> set xs. f x = Some y)"
  by (induction xs) (auto simp: List.map_filter_def)

text \<open>
  C1, as stated, fails: \<open>EncodeAll\<close> decides from \<open>done.txt\<close> alone and never looks
  for the encoded file. Chunk 0 is in the log and has no file \<open>encode/0000.ivf\<close>; it
  is not among the remaining chunks, and \<open>EncodeAll\<close> returns at once, as for a
  finished encode, without starting a worker.
\<close>

theorem logged_chunk_without_file_is_skipped:
  "ivf_files \<lparr>done_txt = Content ''0 10 100'', ivf_files = Map.empty\<rparr> 0 = None
   \<and> GetResume (done_txt \<lparr>done_txt = Content ''0 10 100'', ivf_files = Map.empty\<rparr>)
       = Inr \<lparr>ChunksDone = [\<lparr>comp_Idx = 0, comp_Frames = 10, comp_Size = 100\<rparr>]\<rparr>
   \<and> remainingChunks
        (DoneSet \<lparr>ChunksDone = [\<lparr>comp_Idx = 0, comp_Frames = 10, comp_Size = 100\<rparr>]\<rparr>)
        [\<lparr>Idx = 0, Start = 0, End = 10\<rparr>] = []
   \<and> EncodeAll
        \<lparr>the_host = \<lparr>AvailableMemoryBytes = 0, PhysicalCores = 8, LogicalCores = 16\<rparr>,
         EnsureEncodeDir_error = None, GetDecodeStrat_result = Inr None\<rparr>
        \<lparr>done_txt = Content ''0 10 100'', ivf_files = Map.empty\<rparr>
        [\<lparr>Idx = 0, Start = 0, End = 10\<rparr>]
        \<lparr>Width = 1920, Height = 1080\<rparr>
        \<lparr>Workers = 4, ChunkBuffer = 2, LogicalProcessors = 0\<rparr>
        []
       = \<lparr>run_workers = 4, run_error = None, run_trace = [],
          run_workDir = \<lparr>done_txt = Content ''0 10 100'', ivf_files = Map.empty\<rparr>\<rparr>"
proof -
  have g: "GetResume (Content ''0 10 100'')
       = Inr \<lparr>ChunksDone = [\<lparr>comp_Idx = 0, comp_Frames = 10, comp_Size = 100\<rparr>]\<rparr>"
    by (simp add: GetResume_def text_eval)
  have r: "remainingChunks
        (DoneSet \<lparr>ChunksDone = [\<lparr>comp_Idx = 0, comp_Frames = 10, comp_Size = 100\<rparr>]\<rparr>)
        [\<lparr>Idx = 0, Start = 0, End = 10\<rparr>] = []"
    by (simp add: remainingChunks_def DoneSet_lookup)
  show ?thesis by (simp add: EncodeAll_def g r)
qed

text \<open>
  C1, amended. \<open>remainingChunks\<close> is the list that the dispatcher sends to the workers.
  A planned chunk is left out of it, and so not encoded again, exactly when its index
  is the index of at least one record of \<open>done.txt\<close>, that is, when some line of the
  file reads as a record with this index, whether or not its encoded file exists; a
  chunk whose index is not in the log is encoded again, also when its file exists.
\<close>

theorem skipped_iff_in_log:
  assumes "GetResume (done_txt wd) = Inr r" and "ch \<in> set chunks"
  shows "(ch \<notin> set (remainingChunks (DoneSet r) chunks)
           \<longleftrightarrow> Idx ch \<in> comp_Idx ` set (ChunksDone r))
         \<and> (Idx ch \<in> comp_Idx ` set (ChunksDone r)
              \<longleftrightarrow> (case done_txt wd of
                     Content content \<Rightarrow>
                       list_ex (\<lambda>l. \<exists>c. parse_done_line l = Some c \<and> comp_Idx c = Idx ch)
                         (fst (ScanLines content))
                   | _ \<Rightarrow> False))"
proof -
  have skip: "ch \<notin> set (remainingChunks (DoneSet r) chunks)
      \<longleftrightarrow> Idx ch \<in> comp_Idx ` set (ChunksDone r)"
    using assms(2) by (simp add: remainingChunks_def DoneSet_lookup)
  show ?thesis
  proof (cases "done_txt wd")
    case Absent
    with assms(1) have "ChunksDone r = []" by (auto simp: GetResume_def)
    with skip Absent show ?thesis by simp
  next
    case Unreadable
    with assms(1) show ?thesis by (simp add: GetResume_def)
  next
    case (Content content)
    with assms(1) have r: "ChunksDone r = List.map_filter parse_done_line (fst (ScanLines content))"
      by (auto simp: GetResume_def split: option.splits)
    have "Idx ch \<in> comp_Idx ` set (ChunksDone r)
        \<longleftrightarrow> (\<exists>l \<in> set (fst (ScanLines content)).
               \<exists>c. parse_done_line l = Some c \<and> comp_Idx c = Idx ch)"
      (is "?logged \<longleftrightarrow> ?line")
    proof
      assume ?logged
      then obtain c where "c \<in> set (ChunksDone r)" and c: "comp_Idx c = Idx ch" by auto
      then obtain l where "l \<in> set (fst (ScanLines content))" "parse_done_line l = Some c"
        unfolding r set_map_filter_iff by blast
      with c show ?line by blast
    next
      assume ?line
      then obtain l c where "l \<in> set (fst (ScanLines content))" "parse_done_line l = Some c"
        and c: "comp_Idx c = Idx ch" by blast
      then have "c \<in> set (ChunksDone r)" unfolding r set_map_filter_iff by blast
      with c show ?logged by force
    qed
    with skip Content show ?thesis by (simp add: list_ex_iff)
  qed
qed

theorem skipped_iff_in_log_witness:
  "GetResume (done_txt \<lparr>done_txt = Content ''0 10 100'', ivf_files = [0 \<mapsto> 100, 1 \<mapsto> 7]\<rparr>)
     = Inr \<lparr>ChunksDone = [\<lparr>comp_Idx = 0, comp_Frames = 10, comp_Size = 100\<rparr>]\<rparr>
   \<and> \<lparr>Idx = 1, Start = 10, End = 20\<rparr> \<in> set [\<lparr>Idx = 0, Start = 0, End = 10\<rparr>, \<lparr>Idx = 1, Start = 10, End = 20\<rparr>]
   \<and> ivf_files \<lparr>done_txt = Content ''0 10 100'', ivf_files = [0 \<mapsto> 100, 1 \<mapsto> 7]\<rparr> 1 = Some 7
   \<and> \<lparr>Idx = 1, Start = 10, End = 20\<rparr>
       \<in> set (remainingChunks
            (DoneSet \<lparr>ChunksDone = [\<lparr>comp_Idx = 0, comp_Frames = 10, comp_Size = 100\<rparr>]\<rparr>)
            [\<lparr>Idx = 0, Start = 0, End = 10\<rparr>, \<lparr>Idx = 1, Start = 10, End = 20\<rparr>])"
proof -
  have g: "GetResume (done_txt \<lparr>done_txt = Content ''0 10 100'', ivf_files = [0 \<mapsto> 100, 1 \<mapsto> 7]\<rparr>)
     = Inr \<lparr>ChunksDone = [\<lparr>comp_Idx = 0, comp_Frames = 10, comp_Size = 100\<rparr>]\<rparr>"
    by (simp add: GetResume_def text_eval)
  have m: "\<lparr>Idx = 1, Start = 10, End = 20\<rparr> \<in> set [\<lparr>Idx = 0, Start = 0, End = 10\<rparr>, \<lparr>Idx = 1, Start = 10, End = 20\<rparr>]"
    by simp
  from skipped_iff_in_log [OF g m] g m show ?thesis by (simp add: text_eval)
qed

text \<open>
  The error slot keeps the first error it is given: after any events, the slot holds
  the first of their failures.
\<close>

lemma encodeErr_setError:
  "encodeErr (setError e st) = (case encodeErr st of None \<Rightarrow> Some e | Some e0 \<Rightarrow> Some e0)"
  by (simp add: setError_def split: option.splits)

lemma encodeErr_step:
  "encodeErr (step ev st) =
     (case encodeErr st of
        Some e0 \<Rightarrow> Some e0
      | None \<Rightarrow> (case failures [ev] of [] \<Rightarrow> None | e # _ \<Rightarrow> Some e))"
  by (cases ev) (simp_all add: collect_def encodeErr_setError Let_def split: option.splits)

lemma getError_fold_step:
  "getError (fold step events st) =
     (case encodeErr st of
        Some e0 \<Rightarrow> Some e0
      | None \<Rightarrow> (case failures events of [] \<Rightarrow> None | e # _ \<Rightarrow> Some e))"
proof (induction events arbitrary: st)
  case Nil
  then show ?case by (simp add: getError_def split: option.splits)
next
  case (Cons ev events)
  have "getError (fold step (ev # events) st) = getError (fold step events (step ev st))"
    by simp
  also have "\<dots> =
     (case encodeErr (step ev st) of
        Some e0 \<Rightarrow> Some e0
      | None \<Rightarrow> (case failures events of [] \<Rightarrow> None | e # _ \<Rightarrow> Some e))"
    by (rule Cons.IH)
  also have "\<dots> =
     (case encodeErr st of
        Some e0 \<Rightarrow> Some e0
      | None \<Rightarrow> (case failures (ev # events) of [] \<Rightarrow> None | e # _ \<Rightarrow> Some e))"
    unfolding encodeErr_step by (cases ev) (simp_all split: option.splits)
  finally show ?case .
qed

lemma failures_append: "failures (xs @ ys) = failures xs @ failures ys"
  by (induction xs rule: failures.induct) simp_all

lemma CapWorkers_positive: "1 \<le> requested \<Longrightarrow> 1 \<le> fst (CapWorkers h requested width height)"
  by (simp add: CapWorkers_def Let_def)

lemma EncodeAll_run_error:
  assumes "EnsureEncodeDir_error env = None"
    and "GetResume (done_txt wd) = Inr r"
    and "remainingChunks (DoneSet r) chunks \<noteq> []"
    and "GetDecodeStrat_result env = Inr cropCalc"
    and "1 \<le> Workers cfg"
  shows "run_error (EncodeAll env wd chunks vidInf cfg events) =
           (case failures events of [] \<Rightarrow> None | e # _ \<Rightarrow> Some (Latched e))"
proof -
  obtain width height where wh:
    "(case cropCalc of None \<Rightarrow> (Width vidInf, Height vidInf) | Some new \<Rightarrow> new) = (width, height)"
    by (cases "case cropCalc of None \<Rightarrow> (Width vidInf, Height vidInf) | Some new \<Rightarrow> new") auto
  have pos: "\<not> fst (CapWorkers (the_host env) (Workers cfg) width height) \<le> 0"
    using CapWorkers_positive [OF assms(5), of "the_host env" width height] by simp
  show ?thesis
    using assms(1-4) wh pos
    by (simp add: EncodeAll_def Let_def getError_fold_step split: list.splits)
qed

text \<open>
  C6. When the pipeline has started and at least one event of the run is a failure,
  \<open>EncodeAll\<close> returns one error, the first that was passed to \<open>setError\<close>, and the
  same one however the run goes on after it.
\<close>

theorem first_latched_error_returned:
  assumes "EnsureEncodeDir_error env = None"
    and "GetResume (done_txt wd) = Inr r"
    and "remainingChunks (DoneSet r) chunks \<noteq> []"
    and "GetDecodeStrat_result env = Inr cropCalc"
    and "1 \<le> Workers cfg"
    and "failures events = e # others"
  shows "run_error (EncodeAll env wd chunks vidInf cfg events) = Some (Latched e)
         \<and> run_error (EncodeAll env wd chunks vidInf cfg (events @ later)) = Some (Latched e)"
  using assms(6)
  by (simp add: EncodeAll_run_error [OF assms(1-5)] failures_append)

theorem first_latched_error_returned_witness:
  "EnsureEncodeDir_error
      \<lparr>the_host = \<lparr>AvailableMemoryBytes = 0, PhysicalCores = 8, LogicalCores = 16\<rparr>,
       EnsureEncodeDir_error = None, GetDecodeStrat_result = Inr None\<rparr> = None
   \<and> GetResume (done_txt \<lparr>done_txt = Absent, ivf_files = Map.empty\<rparr>) = Inr \<lparr>ChunksDone = []\<rparr>
   \<and> remainingChunks (DoneSet \<lparr>ChunksDone = []\<rparr>)
        [\<lparr>Idx = 0, Start = 0, End = 10\<rparr>, \<lparr>Idx = 1, Start = 10, End = 20\<rparr>] \<noteq> []
   \<and> GetDecodeStrat_result
        \<lparr>the_host = \<lparr>AvailableMemoryBytes = 0, PhysicalCores = 8, LogicalCores = 16\<rparr>,
         EnsureEncodeDir_error = None, GetDecodeStrat_result = Inr None\<rparr> = Inr None
   \<and> (1::int) \<le> Workers \<lparr>Workers = 4, ChunkBuffer = 2, LogicalProcessors = 0\<rparr>
   \<and> failures [Failed \<lparr>Idx = 1, Start = 10, End = 20\<rparr> ''encoder failed'',
                 Failed \<lparr>Idx = 0, Start = 0, End = 10\<rparr> ''context canceled'']
       = [''encoder failed'', ''context canceled'']
   \<and> run_error
        (EncodeAll
           \<lparr>the_host = \<lparr>AvailableMemoryBytes = 0, PhysicalCores = 8, LogicalCores = 16\<rparr>,
            EnsureEncodeDir_error = None, GetDecodeStrat_result = Inr None\<rparr>
           \<lparr>done_txt = Absent, ivf_files = Map.empty\<rparr>
           [\<lparr>Idx = 0, Start = 0, End = 10\<rparr>, \<lparr>Idx = 1, Start = 10, End = 20\<rparr>]
           \<lparr>Width = 1920, Height = 1080\<rparr>
           \<lparr>Workers = 4, ChunkBuffer = 2, LogicalProcessors = 0\<rparr>
           [Failed \<lparr>Idx = 1, Start = 10, End = 20\<rparr> ''encoder failed'',
            Failed \<lparr>Idx = 0, Start = 0, End = 10\<rparr> ''context canceled''])
       = Some (Latched ''encoder failed'')"
proof -
  let ?env = "\<lparr>the_host = \<lparr>AvailableMemoryBytes = 0, PhysicalCores = 8, LogicalCores = 16\<rparr>,
       EnsureEncodeDir_error = None, GetDecodeStrat_result = Inr None\<rparr>"
  let ?wd = "\<lparr>done_txt = Absent, ivf_files = (Map.empty :: int \<rightharpoonup> uint64)\<rparr>"
  let ?chunks = "[\<lparr>Idx = 0, Start = 0, End = 10\<rparr>, \<lparr>Idx = 1, Start = 10, End = 20\<rparr>]"
  let ?cfg = "\<lparr>Workers = 4, ChunkBuffer = 2, LogicalProcessors = 0\<rparr>"
  let ?events = "[Failed \<lparr>Idx = 1, Start = 10, End = 20\<rparr> ''encoder failed'',
                 Failed \<lparr>Idx = 0, Start = 0, End = 10\<rparr> ''context canceled'']"
  have a1: "EnsureEncodeDir_error ?env = None" by simp
  have a2: "GetResume (done_txt ?wd) = Inr \<lparr>ChunksDone = []\<rparr>" by (simp add: GetResume_def)
  have a3: "remainingChunks (DoneSet \<lparr>ChunksDone = []\<rparr>) ?chunks \<noteq> []"
    by (simp add: remainingChunks_def DoneSet_lookup)
  have a4: "GetDecodeStrat_result ?env = Inr None" by simp
  have a5: "(1::int) \<le> Workers ?cfg" by simp
  have a6: "failures ?events = [''encoder failed'', ''context canceled'']" by simp
  from first_latched_error_returned [OF a1 a2 a3 a4 a5 a6, of "\<lparr>Width = 1920, Height = 1080\<rparr>" "[]"]
    a1 a2 a3 a4 a5 a6
  show ?thesis by simp
qed

section \<open>The pipeline: progress\<close>

text \<open>Sums of Go ints that stay in range.\<close>

lemma fold_wrap64_sum:
  assumes "list_all (\<lambda>x. 0 \<le> x) xs" "0 \<le> a" "a + sum_list xs < 2 ^ 63"
  shows "fold (\<lambda>x acc. wrap64 (acc + x)) xs a = a + sum_list xs"
  using assms
proof (induction xs arbitrary: a)
  case Nil
  then show ?case by simp
next
  case (Cons x xs)
  then have x: "0 \<le> x" and rest: "list_all (\<lambda>x. 0 \<le> x) xs" by simp_all
  have "0 \<le> sum_list xs" using rest by (induction xs) auto
  with Cons.prems x have "in_int64 (a + x)" by (simp add: in_int64_def)
  then have w: "wrap64 (a + x) = a + x" by (rule wrap64_id)
  have "fold (\<lambda>x acc. wrap64 (acc + x)) xs (a + x) = (a + x) + sum_list xs"
    using rest x Cons.prems by (intro Cons.IH) simp_all
  with w show ?case by simp
qed

lemma sum_list_nonneg_int: "list_all (\<lambda>x. (0::int) \<le> x) xs \<Longrightarrow> 0 \<le> sum_list xs"
  by (induction xs) auto

lemma member_le_sum_list_int:
  "list_all (\<lambda>x. (0::int) \<le> x) xs \<Longrightarrow> x \<in> set xs \<Longrightarrow> x \<le> sum_list xs"
proof (induction xs)
  case Nil
  then show ?case by simp
next
  case (Cons y ys)
  then have "0 \<le> sum_list ys" "0 \<le> y" by (simp_all add: sum_list_nonneg_int)
  with Cons show ?case by auto
qed


















text \<open>
  The plans that \<open>LoadScenes\<close> and \<open>Chunkify\<close> make are plans in the sense of
  \<open>valid_plan\<close>.
\<close>

lemma covers_spans:
  "covers i s cs tf \<Longrightarrow>
     sum_list (map span cs) = tf - s \<and> int (length cs) \<le> tf - s
     \<and> list_all (\<lambda>ch. 0 \<le> span ch) cs"
proof (induction cs arbitrary: i s)
  case Nil
  then show ?case by simp
next
  case (Cons c cs)
  then have c: "Start c = s" "s < End c" and rest: "covers (i + 1) (End c) cs tf" by simp_all
  from Cons.IH [OF rest] c show ?case by (simp add: span_def)
qed

lemma covers_distinct: "covers i s cs tf \<Longrightarrow> distinct (map Idx cs)"
proof -
  assume c: "covers i s cs tf"
  have "map Idx cs ! j \<noteq> map Idx cs ! k" if "j < length cs" "k < length cs" "j \<noteq> k" for j k
    using covers_index [OF c that(1)] covers_index [OF c that(2)] that by simp
  then show ?thesis by (simp add: distinct_conv_nth)
qed

lemma covers_valid_plan:
  assumes "covers 0 0 cs tf" "in_int64 tf"
  shows "valid_plan cs"
  using covers_spans [OF assms(1)] covers_distinct [OF assms(1)] assms(2)
  by (simp add: valid_plan_def in_int64_def)

lemma planned_chunks_valid:
  assumes "0 < totalFrames" "in_int64 totalFrames"
    and "ScanLines content = (ls, None)"
    and "parse_frame_lines ls = Inr nums"
    and "\<forall>n \<in> set nums. 0 \<le> n \<and> n < totalFrames"
  shows "\<exists>scenes. LoadScenes (Content content) totalFrames = Inr scenes
           \<and> valid_plan (Chunkify scenes)"
proof -
  let ?frameNums = "if sort nums = [] \<or> hd (sort nums) \<noteq> 0 then 0 # sort nums else sort nums"
  from frameNums_ready [OF assms(1,5)] obtain xs
    where xs: "?frameNums = 0 # xs" "sorted (0 # xs)" "\<forall>y \<in> set (0 # xs). y < totalFrames"
    by blast
  let ?scenes = "scenes_from (0 # xs) totalFrames"
  have load: "LoadScenes (Content content) totalFrames = Inr ?scenes"
    using assms(3,4) xs(1) by (simp add: LoadScenes_def Let_def)
  from scenes_from_chain [OF xs(2,3)] have ch: "chain 0 ?scenes totalFrames" by simp
  have "covers 0 0 (Chunkify ?scenes) totalFrames"
    using chunkify_from_covers [OF ch] by (simp add: Chunkify_def)
  then have "valid_plan (Chunkify ?scenes)" using assms(2) by (rule covers_valid_plan)
  with load show ?thesis by blast
qed





section \<open>Crop detection\<close>

text \<open>
  The comparison \<open>ratio > 0.8\<close> in \<open>float64\<close> decides as the exact quotient does:
  for a count \<open>c\<close> out of \<open>t\<close> samples, \<open>t\<close> below \<open>2 ^ 50\<close>, it holds exactly when
  \<open>4 * t < 5 * c\<close>. The rounded quotient is within half a unit of \<open>c * 2 ^ e / t\<close>,
  and the double 0.8 is \<open>(4 * 2 ^ 52 + 1) / (5 * 2 ^ 52)\<close>.
\<close>

lemma bit_length_mono: "n \<le> m \<Longrightarrow> bit_length n \<le> bit_length m"
proof (induction n arbitrary: m rule: bit_length.induct)
  case (1 n)
  show ?case
  proof (cases "n = 0")
    case True
    then show ?thesis by (simp add: bit_length_0)
  next
    case False
    with "1.prems" have m: "m \<noteq> 0" by simp
    have "n div 2 \<le> m div 2" using "1.prems" by (rule div_le_mono)
    with False have "bit_length (n div 2) \<le> bit_length (m div 2)" by (rule "1.IH")
    moreover have "bit_length n = Suc (bit_length (n div 2))"
      using False by (subst bit_length.simps) simp
    moreover have "bit_length m = Suc (bit_length (m div 2))"
      using m by (subst bit_length.simps) simp
    ultimately show ?thesis by simp
  qed
qed

lemma quotient_exponent_ge: "c \<le> t \<Longrightarrow> 52 \<le> quotient_exponent c t"
  using bit_length_mono [of c t] by (auto simp: quotient_exponent_def Let_def)

lemma quotient_mantissa_bounds:
  assumes "0 < t"
  shows "2 * (c * 2 ^ quotient_exponent c t) \<le> 2 * (quotient_mantissa c t * t) + t"
    and "2 * (quotient_mantissa c t * t) \<le> 2 * (c * 2 ^ quotient_exponent c t) + t"
proof -
  define x where "x = c * 2 ^ quotient_exponent c t"
  define q where "q = x div t"
  define r where "r = x mod t"
  have x: "x = q * t + r" by (simp add: q_def r_def)
  have r: "r < t" using assms by (simp add: r_def)
  have m: "quotient_mantissa c t = (if 2 * r > t \<or> (2 * r = t \<and> odd q) then q + 1 else q)"
    by (simp add: quotient_mantissa_def Let_def x_def q_def r_def)
  show "2 * (c * 2 ^ quotient_exponent c t) \<le> 2 * (quotient_mantissa c t * t) + t"
    unfolding x_def [symmetric] m using x r by (auto simp: algebra_simps)
  show "2 * (quotient_mantissa c t * t) \<le> 2 * (c * 2 ^ quotient_exponent c t) + t"
    unfolding x_def [symmetric] m using x r by (auto simp: algebra_simps)
qed

lemma ratio_core:
  fixes c t m A Q D' :: nat
  assumes t: "0 < t" and small: "4 * t < A" and Q: "0 < Q" and D: "5 * D' = 4 * A + 1"
    and lower: "2 * (c * (A * Q)) \<le> 2 * (m * t) + t"
    and upper: "2 * (m * t) \<le> 2 * (c * (A * Q)) + t"
  shows "D' * Q < m \<longleftrightarrow> 4 * t < 5 * c"
proof -
  define v where "v = A * Q"
  define u where "u = Q * t"
  define w where "w = v * t"
  have tu: "t \<le> u" using Q by (simp add: u_def)
  have uv: "4 * u < v"
  proof -
    have "Q * (4 * t) < Q * A" using small Q by simp
    then show ?thesis by (simp add: u_def v_def algebra_simps)
  qed
  have Du: "5 * (D' * u) = 4 * w + u"
  proof -
    have "5 * (D' * u) = (5 * D') * u" by simp
    also have "\<dots> = (4 * A + 1) * u" by (simp only: D)
    also have "\<dots> = 4 * w + u" by (simp add: u_def v_def w_def algebra_simps)
    finally show ?thesis .
  qed
  show ?thesis
  proof
    assume gt: "D' * Q < m"
    show "4 * t < 5 * c"
    proof (rule ccontr)
      assume "\<not> 4 * t < 5 * c"
      then have "5 * c \<le> 4 * t" by simp
      then have "5 * c * v \<le> 4 * t * v" by (rule mult_le_mono1)
      then have cv: "5 * (c * v) \<le> 4 * w" by (simp add: w_def algebra_simps)
      have "(D' * Q + 1) * t \<le> m * t" using gt by (intro mult_le_mono1) simp
      then have mt: "D' * u + t \<le> m * t" by (simp add: u_def algebra_simps)
      from upper have "2 * (m * t) \<le> 2 * (c * v) + t" by (simp add: v_def)
      with cv mt Du t show False by linarith
    qed
  next
    assume gt: "4 * t < 5 * c"
    show "D' * Q < m"
    proof (rule ccontr)
      assume "\<not> D' * Q < m"
      then have "m \<le> D' * Q" by simp
      then have "m * t \<le> D' * Q * t" by (rule mult_le_mono1)
      then have mt: "m * t \<le> D' * u" by (simp add: u_def algebra_simps)
      from gt have "4 * t + 1 \<le> 5 * c" by simp
      then have "(4 * t + 1) * v \<le> 5 * c * v" by (rule mult_le_mono1)
      then have cv: "4 * w + v \<le> 5 * (c * v)" by (simp add: w_def algebra_simps)
      from lower have "2 * (c * v) \<le> 2 * (m * t) + t" by (simp add: v_def)
      with cv mt Du tu uv show False by linarith
    qed
  qed
qed

lemma ratio_exceeds_0_8_exact:
  assumes "0 < t" and "t < 2 ^ 50" and "c \<le> t"
  shows "ratio_exceeds_0_8 c t \<longleftrightarrow> 4 * t < 5 * c"
proof -
  from quotient_exponent_ge [OF assms(3)]
  obtain k where E: "quotient_exponent c t = 52 + k" by (auto simp: le_iff_add)
  have P: "(2::nat) ^ quotient_exponent c t = 2 ^ 52 * 2 ^ k" by (simp add: E power_add)
  have "ratio_exceeds_0_8 c t
      \<longleftrightarrow> 7205759403792794 * (2 ^ 52 * 2 ^ k) < quotient_mantissa c t * 2 ^ 53"
    by (simp only: ratio_exceeds_0_8_def P)
  also have "\<dots> \<longleftrightarrow> 2 ^ 53 * (3602879701896397 * 2 ^ k) < 2 ^ 53 * quotient_mantissa c t"
    by (simp add: algebra_simps)
  also have "\<dots> \<longleftrightarrow> 3602879701896397 * 2 ^ k < quotient_mantissa c t"
    by (simp only: mult_less_cancel1) simp
  also have "\<dots> \<longleftrightarrow> 4 * t < 5 * c"
  proof (rule ratio_core [where A = "2 ^ 52"])
    show "0 < t" by (rule assms(1))
    show "4 * t < 2 ^ 52" using assms(2) by simp
    show "(0::nat) < 2 ^ k" by simp
    show "5 * (3602879701896397::nat) = 4 * 2 ^ 52 + 1" by simp
    show "2 * (c * (2 ^ 52 * 2 ^ k)) \<le> 2 * (quotient_mantissa c t * t) + t"
      using quotient_mantissa_bounds(1) [OF assms(1), of c] by (simp only: P)
    show "2 * (quotient_mantissa c t * t) \<le> 2 * (c * (2 ^ 52 * 2 ^ k)) + t"
      using quotient_mantissa_bounds(2) [OF assms(1), of c] by (simp only: P)
  qed
  finally show ?thesis .
qed

text \<open>The first of the sorted entries is an entry of greatest count.\<close>

lemma insert_sorted_set: "set (insert_sorted lessFn x ys) = insert x (set ys)"
  by (induction ys) auto

lemma insert_sorted_hd:
  "hd (insert_sorted lessFn x ys) = (if ys \<noteq> [] \<and> lessFn (hd ys) x then hd ys else x)"
  by (cases ys) simp_all

lemma sort_Slice_Cons: "sort_Slice lessFn (x # xs) = insert_sorted lessFn x (sort_Slice lessFn xs)"
  by (simp add: sort_Slice_def)

lemma sort_Slice_set: "set (sort_Slice lessFn xs) = set xs"
  by (induction xs) (simp_all add: sort_Slice_Cons insert_sorted_set, simp add: sort_Slice_def)

lemma sort_Slice_Nil_iff: "sort_Slice lessFn xs = [] \<longleftrightarrow> xs = []"
  using sort_Slice_set [of lessFn xs] by (metis set_empty)

lemma sort_Slice_hd_greatest:
  fixes xs :: "('a \<times> int) list"
  assumes "xs \<noteq> []"
  shows "hd (sort_Slice (\<lambda>a b. snd a > snd b) xs) \<in> set xs
         \<and> (\<forall>e \<in> set xs. snd e \<le> snd (hd (sort_Slice (\<lambda>a b. snd a > snd b) xs)))"
  using assms
proof (induction xs)
  case Nil
  then show ?case by simp
next
  case (Cons x xs)
  let ?s = "sort_Slice (\<lambda>a b. snd a > snd b) xs"
  show ?case
  proof (cases "xs = []")
    case True
    then show ?thesis by (simp add: sort_Slice_def)
  next
    case False
    then have s: "?s \<noteq> []" by (simp add: sort_Slice_Nil_iff)
    from Cons.IH [OF False] have h: "hd ?s \<in> set xs" and g: "\<forall>e \<in> set xs. snd e \<le> snd (hd ?s)"
      by simp_all
    show ?thesis
    proof (cases "snd (hd ?s) > snd x")
      case True
      then have "hd (sort_Slice (\<lambda>a b. snd a > snd b) (x # xs)) = hd ?s"
        using s by (simp add: sort_Slice_Cons insert_sorted_hd)
      with h g True show ?thesis by auto
    next
      case False
      then have "hd (sort_Slice (\<lambda>a b. snd a > snd b) (x # xs)) = x"
        by (simp add: sort_Slice_Cons insert_sorted_hd)
      with g False show ?thesis by fastforce
    qed
  qed
qed

lemma two_members_le_sum_list:
  fixes f :: "'a \<Rightarrow> int"
  assumes "list_all (\<lambda>x. 0 \<le> f x) xs" "x \<in> set xs" "y \<in> set xs" "x \<noteq> y"
  shows "f x + f y \<le> sum_list (map f xs)"
  using assms
proof (induction xs)
  case Nil
  then show ?case by simp
next
  case (Cons z zs)
  then have z: "0 \<le> f z" and rest: "list_all (\<lambda>x. 0 \<le> f x) zs" by simp_all
  have nn: "list_all (\<lambda>v. 0 \<le> v) (map f zs)" using rest by (simp add: list_all_iff)
  have mem: "f v \<le> sum_list (map f zs)" if "v \<in> set zs" for v
    using member_le_sum_list_int [OF nn, of "f v"] that by simp
  consider "x = z" "y \<in> set zs" | "y = z" "x \<in> set zs" | "x \<in> set zs" "y \<in> set zs"
    using Cons.prems by auto
  then show ?case
  proof cases
    case 1
    then show ?thesis using mem [of y] by simp
  next
    case 2
    then show ?thesis using mem [of x] by simp
  next
    case 3
    then have "f x + f y \<le> sum_list (map f zs)" using Cons.IH rest Cons.prems(4) by simp
    with z show ?thesis by simp
  qed
qed

lemma totalSamples_sum:
  assumes "list_all (\<lambda>(crop, count). 0 < count) cropCounts"
    and "sum_list (map snd cropCounts) < 2 ^ 63"
  shows "fold (\<lambda>(crop, count) totalSamples. wrap64 (totalSamples + count)) cropCounts 0
         = sum_list (map snd cropCounts)"
proof -
  have "fold (\<lambda>(crop, count) totalSamples. wrap64 (totalSamples + count)) cropCounts 0
      = fold (\<lambda>x acc. wrap64 (acc + x)) (map snd cropCounts) 0"
    by (simp add: fold_map comp_def case_prod_unfold)
  also have "\<dots> = 0 + sum_list (map snd cropCounts)"
    using assms by (intro fold_wrap64_sum) (auto simp: list_all_iff)
  finally show ?thesis by simp
qed

lemma sampleMsg_text: "sampleMsg = ''Analyzed 141 samples''"
  by (simp add: sampleMsg_def numSamples_def fmt_int_def fmt_nat.simps digit_char_def)

lemma isEffectiveCrop_full_frame: "\<not> isEffectiveCrop ''1920:1080:0:0'' 1920 1080"
  by (simp add: isEffectiveCrop_def ParseUint_def is_digit_def digit_val_def)

lemma isEffectiveCrop_letterbox: "isEffectiveCrop ''1920:800:0:140'' 1920 1080"
  by (simp add: isEffectiveCrop_def ParseUint_def is_digit_def digit_val_def)

text \<open>
  C5, as stated, fails where the most common rectangle has more than 0.80 of the
  samples and is the whole frame: \<open>DetectCrop\<close> decides no crop, as claimed, and does
  not flag multiple aspect ratios. Here 130 of 135 samples gave the full frame of a
  1920x1080 source and 5 a letterbox.
\<close>

theorem dominant_full_frame_not_flagged:
  "ratio_exceeds_0_8 130 135
   \<and> \<not> isEffectiveCrop ''1920:1080:0:0'' 1920 1080
   \<and> DetectCrop \<lparr>props_Width = 1920, props_Height = 1080\<rparr> False
        [(''1920:1080:0:0'', 130), (''1920:800:0:140'', 5)]
     = \<lparr>CropFilter = [], Required = False, MultipleRatios = False,
        Message = ''Analyzed 141 samples''\<rparr>"
proof -
  have r: "ratio_exceeds_0_8 130 135"
    using ratio_exceeds_0_8_exact [of 135 130] by simp
  have t: "nat (wrap64 (wrap64 130 + 5)) = 135" by (simp add: wrap64_def)
  show ?thesis
    using r
    by (simp add: DetectCrop_def sort_Slice_def Let_def t isEffectiveCrop_full_frame
        sampleMsg_text)
qed

text \<open>
  C5, amended. For counts of at least two distinct rectangles, each positive and at
  most 141 in total, and a most common rectangle \<open>c\<close> with count \<open>n\<close>: if the share of
  \<open>c\<close> exceeds 0.80 (\<open>4 * total < 5 * n\<close>) and \<open>c\<close> differs from the source dimensions,
  the result is the crop to \<open>c\<close>; if the share exceeds 0.80 and \<open>c\<close> is the source
  frame, no crop and no flag; and if the share is at most 0.80, no crop and the flag
  for multiple aspect ratios. The result does not depend on the order in which the
  entries come, nor on which of several most common rectangles is taken.
\<close>

theorem DetectCrop_decision:
  assumes keys: "distinct (map fst cropCounts)"
    and pos: "list_all (\<lambda>(crop, count). 0 < count) cropCounts"
    and two: "2 \<le> length cropCounts"
    and few: "sum_list (map snd cropCounts) \<le> numSamples"
    and mem: "(c, n) \<in> set cropCounts"
    and most: "list_all (\<lambda>(crop, count). count \<le> n) cropCounts"
  shows "DetectCrop props False cropCounts =
     (if 4 * sum_list (map snd cropCounts) < 5 * n
      then
        if isEffectiveCrop c (props_Width props) (props_Height props)
        then \<lparr>CropFilter = ''crop='' @ c, Required = True, MultipleRatios = False,
              Message = ''Black bars detected''\<rparr>
        else \<lparr>CropFilter = [], Required = False, MultipleRatios = False, Message = sampleMsg\<rparr>
      else \<lparr>CropFilter = [], Required = False, MultipleRatios = True,
            Message = ''Multiple aspect ratios detected''\<rparr>)"
proof -
  let ?total = "sum_list (map snd cropCounts)"
  let ?sorted = "sort_Slice (\<lambda>a b. snd a > snd b) cropCounts"
  obtain c0 n0 where hd: "hd ?sorted = (c0, n0)" by (cases "hd ?sorted") auto
  have ne: "cropCounts \<noteq> []" using two by auto
  from sort_Slice_hd_greatest [OF ne] hd
  have mem0: "(c0, n0) \<in> set cropCounts" and max0: "\<forall>e \<in> set cropCounts. snd e \<le> n0"
    by simp_all
  have "n \<le> n0" using max0 mem by force
  moreover have "n0 \<le> n" using most mem0 by (auto simp: list_all_iff)
  ultimately have n0: "n0 = n" by simp
  have nn: "list_all (\<lambda>e. 0 \<le> snd e) cropCounts"
    using pos by (auto simp: list_all_iff)
  have npos: "0 < n" using pos mem by (auto simp: list_all_iff)
  have small: "?total < 2 ^ 50" using few by (simp add: numSamples_def)
  have total: "fold (\<lambda>(crop, count) totalSamples. wrap64 (totalSamples + count)) cropCounts 0
      = ?total"
    using pos small by (intro totalSamples_sum) simp_all
  have le: "n \<le> ?total"
    using member_le_sum_list_int [of "map snd cropCounts" n] nn mem
    by (force simp: list_all_iff)
  have ratio: "ratio_exceeds_0_8 (nat n) (nat ?total) \<longleftrightarrow> 4 * ?total < 5 * n"
  proof -
    have "ratio_exceeds_0_8 (nat n) (nat ?total) \<longleftrightarrow> 4 * nat ?total < 5 * nat n"
      using npos le small by (intro ratio_exceeds_0_8_exact) (simp_all add: nat_less_iff)
    also have "\<dots> \<longleftrightarrow> 4 * ?total < 5 * n" using npos le by linarith
    finally show ?thesis .
  qed
  have same: "c0 = c" if "4 * ?total < 5 * n"
  proof (rule ccontr)
    assume "c0 \<noteq> c"
    then have "(c0, n0) \<noteq> (c, n)" by simp
    with two_members_le_sum_list [of snd cropCounts "(c0, n0)" "(c, n)"] nn mem0 mem
    have "n0 + n \<le> ?total" by simp
    with that n0 npos show False by simp
  qed
  have len: "cropCounts \<noteq> []" "length cropCounts \<noteq> 1" using two by auto
  show ?thesis
    unfolding DetectCrop_def Let_def total hd fst_conv snd_conv n0 ratio
    using len same by simp
qed

theorem DetectCrop_decision_witness:
  "distinct (map fst [(''1920:1080:0:0'', 5 :: int), (''1920:800:0:140'', 130)])
   \<and> list_all (\<lambda>(crop, count). 0 < count) [(''1920:1080:0:0'', 5 :: int), (''1920:800:0:140'', 130)]
   \<and> 2 \<le> length [(''1920:1080:0:0'', 5 :: int), (''1920:800:0:140'', 130)]
   \<and> sum_list (map snd [(''1920:1080:0:0'', 5 :: int), (''1920:800:0:140'', 130)]) \<le> numSamples
   \<and> (''1920:800:0:140'', 130) \<in> set [(''1920:1080:0:0'', 5 :: int), (''1920:800:0:140'', 130)]
   \<and> list_all (\<lambda>(crop, count). count \<le> 130) [(''1920:1080:0:0'', 5 :: int), (''1920:800:0:140'', 130)]
   \<and> DetectCrop \<lparr>props_Width = 1920, props_Height = 1080\<rparr> False
        [(''1920:1080:0:0'', 5), (''1920:800:0:140'', 130)]
     = \<lparr>CropFilter = ''crop=1920:800:0:140'', Required = True, MultipleRatios = False,
        Message = ''Black bars detected''\<rparr>"
  using DetectCrop_decision
    [of "[(''1920:1080:0:0'', 5), (''1920:800:0:140'', 130)]" "''1920:800:0:140''" 130
      "\<lparr>props_Width = 1920, props_Height = 1080\<rparr>"]
  by (simp add: numSamples_def isEffectiveCrop_letterbox)

section \<open>Threads per worker\<close>

text \<open>
  C8. For every worker count \<open>W \<ge> 1\<close>, physical and logical core count and frame width,
  the threads-per-worker value is
  \<open>clamp (physical / W + (1 if logical > physical else 0)) 1 (T_max width)\<close> with Go's
  integer division, where \<open>T_max\<close> is 6 below width 1920, 10 from 1920 and below 3840,
  and 16 from 3840.
\<close>

theorem calculateThreadsPerWorker_clamp:
  assumes "1 \<le> W"
  shows "calculateThreadsPerWorker h W width =
         clamp (go_div (PhysicalCores h) W
                 + (if LogicalCores h > PhysicalCores h then 1 else 0))
               1
               (if unat width < 1920 then 6 else if unat width < 3840 then 10 else 16)"
proof -
  have tmax: "maxThreads_of width =
      (if unat width < 1920 then 6 else if unat width < 3840 then 10 else 16)"
    by (simp add: maxThreads_of_def word_le_nat_alt not_less)
  show ?thesis
    using assms unfolding calculateThreadsPerWorker_def clamp_def Let_def tmax
    by (auto simp: max_def min_def)
qed

theorem calculateThreadsPerWorker_clamp_witness:
  "(1::int) \<le> 4 \<and>
   calculateThreadsPerWorker
     \<lparr>AvailableMemoryBytes = 0, PhysicalCores = 16, LogicalCores = 32\<rparr> 4 1920 = 5"
  using calculateThreadsPerWorker_clamp
    [of 4 "\<lparr>AvailableMemoryBytes = 0, PhysicalCores = 16, LogicalCores = 32\<rparr>" 1920]
  by (simp add: clamp_def go_div_def)

end
